theory Spec2Isabelle
  imports Main "HOL-Library.Word"
begin

unbundle bit_operations_syntax

section \<open>Environment, memory and observable events\<close>

text \<open>
  Both programs (\<^verbatim>\<open>main.c\<close> and \<^verbatim>\<open>meltdown.c\<close>) are a C \<^verbatim>\<open>main\<close> around
  blocks of x86-64 inline assembly. Everything the hardware and the C library decide is
  collected in an environment: the pointer \<^verbatim>\<open>calloc\<close> returns (\<^verbatim>\<open>NULL\<close> when it
  fails), the address of the local \<^verbatim>\<open>some_data\<close>, which addresses raise a fault when
  accessed, the byte that the \<open>n\<close>-th execution of \<^verbatim>\<open>mov al, BYTE PTR [rcx]\<close> makes
  visible to the following instructions given the byte stored there (architecturally
  the stored byte itself; the code's comment on \<^verbatim>\<open>jz retry\<close> allows for a rolled-back
  read showing zero), the value of the time-stamp counter at the \<open>n\<close>-th \<^verbatim>\<open>rdtsc\<close>,
  the status word a transactional abort leaves in \<^verbatim>\<open>eax\<close>, and what the code
  before the first assembly block has left in \<^verbatim>\<open>rax\<close> and in the zero flag when the
  block is entered after \<open>n\<close> reads of the secret (the block names \<^verbatim>\<open>rax\<close> as a
  clobber only, so the compiler may leave anything there).
\<close>

type_synonym addr = "64 word"
type_synonym memory = "addr \<Rightarrow> 8 word"

definition NULL :: addr where
  "NULL = 0"

definition UINT32_MAX :: "32 word" where
  "UINT32_MAX = 0xFFFFFFFF"

record env =
  alloc_result :: addr
  secret_addr :: addr
  initial_mem :: memory
  faults :: "addr \<Rightarrow> bool"
  observe :: "nat \<Rightarrow> 8 word \<Rightarrow> 8 word"
  tsc :: "nat \<Rightarrow> 64 word"
  abort_status :: "32 word"
  entry_rax :: "nat \<Rightarrow> 64 word"
  entry_zf :: "nat \<Rightarrow> bool"

text \<open>
  The events are the memory operations the code issues on the probe array and on the
  secret, and the transaction boundaries: \<^verbatim>\<open>clflush [p]\<close>, the byte load of the
  secret, the indexed load \<^verbatim>\<open>mov rbx, QWORD PTR [rbx + rax]\<close>, the timed load
  \<^verbatim>\<open>mov rax, QWORD PTR [p]\<close>, and \<^verbatim>\<open>xbegin\<close>, an abort, \<^verbatim>\<open>xend\<close>.
\<close>

datatype event =
    Clflush addr
  | ByteLoad addr
  | IndexedLoad addr
  | TimedLoad addr
  | TxBegin
  | TxAbort
  | TxEnd

text \<open>The bytes an event reads: one for a byte load, eight for a \<^verbatim>\<open>QWORD PTR\<close> load.\<close>

fun bytes_read :: "event \<Rightarrow> addr list" where
  "bytes_read (ByteLoad a) = [a]"
| "bytes_read (IndexedLoad a) = map (\<lambda>j. a + of_nat j) [0..<8]"
| "bytes_read (TimedLoad a) = map (\<lambda>j. a + of_nat j) [0..<8]"
| "bytes_read _ = []"

text \<open>The address operand of the operations that address the probe array.\<close>

fun probe_operand :: "event \<Rightarrow> addr option" where
  "probe_operand (Clflush a) = Some a"
| "probe_operand (IndexedLoad a) = Some a"
| "probe_operand (TimedLoad a) = Some a"
| "probe_operand _ = None"

record world =
  mem :: memory
  trace :: "event list"
  nloads :: nat
  ntsc :: nat
  out :: "(int \<times> 32 word) list"
  err :: "string list"

text \<open>
  How a run ends: \<^verbatim>\<open>exit\<close>/\<^verbatim>\<open>return\<close> with a status, a fault delivered to the
  process, or never (the \<^verbatim>\<open>retry\<close> loop does not fall through).
\<close>

datatype stop = Exit int | Segv | Hang

definition init_world :: "env \<Rightarrow> world" where
  "init_world e = \<lparr>mem = initial_mem e, trace = [], nloads = 0, ntsc = 0, out = [], err = []\<rparr>"

section \<open>The probe array\<close>

text \<open>
  Modelled from the spec: the allocation of the probe buffer. Both programs call
  \<^verbatim>\<open>calloc(nmemb, size)\<close> of the C library, whose code is not among the sources. As the
  spec words it, the allocation returns a zero-filled region of exactly the requested
  \<open>nmemb * size\<close> bytes, or fails when memory cannot be obtained, which the caller sees
  as \<^verbatim>\<open>NULL\<close>. Which of the two happens, and where the region lies, is the
  environment's choice; memory outside the region is left as it was.
\<close>

definition calloc :: "env \<Rightarrow> nat \<Rightarrow> nat \<Rightarrow> world \<Rightarrow> addr \<times> world" where
  "calloc e nmemb sz w =
     (if alloc_result e = NULL then (NULL, w)
      else (alloc_result e,
            w\<lparr>mem := (\<lambda>a. if a - alloc_result e < of_nat (nmemb * sz) then 0 else mem w a)\<rparr>))"

text \<open>\<^verbatim>\<open>probe_array + (i * 4096)\<close>\<close>

definition slot_addr :: "addr \<Rightarrow> nat \<Rightarrow> addr" where
  "slot_addr probe_array i = probe_array + of_nat (i * 4096)"

text \<open>The bytes of slot \<open>i\<close> of the array, read back from memory.\<close>

definition slot_bytes :: "memory \<Rightarrow> addr \<Rightarrow> nat \<Rightarrow> 8 word list" where
  "slot_bytes m probe_array i = map (\<lambda>j. m (probe_array + of_nat j)) [i * 4096 ..< i * 4096 + 4096]"

definition page_aligned :: "addr \<Rightarrow> bool" where
  "page_aligned a = (a AND 0xFFF = 0)"

definition clflush :: "env \<Rightarrow> addr \<Rightarrow> world \<Rightarrow> (stop \<times> world) + world" where
  "clflush e a w =
     (let w' = w\<lparr>trace := trace w @ [Clflush a]\<rparr>
      in if faults e a then Inl (Segv, w') else Inr w')"

function flush_loop :: "env \<Rightarrow> addr \<Rightarrow> nat \<Rightarrow> world \<Rightarrow> (stop \<times> world) + world" where
  "flush_loop e probe_array i w =
     (if i < 256 then
        (case clflush e (slot_addr probe_array i) w of
           Inl x \<Rightarrow> Inl x
         | Inr w' \<Rightarrow> flush_loop e probe_array (i + 1) w')
      else Inr w)"
  by pat_completeness auto
termination
  by (relation "measure (\<lambda>(e, p, i, w). 256 - i)") auto

section \<open>The transient access block\<close>

datatype instr =
    Mfence
  | Lfence
  | Xor_rax_rax
  | Xbegin string
  | Label string
  | Mov_al_byte_rcx
  | Shl_rax nat
  | Jz string
  | Mov_rbx_qword_rbx_rax
  | Xend

text \<open>The first \<^verbatim>\<open>asm volatile\<close> block of \<^verbatim>\<open>main.c\<close> (retry only).\<close>

definition tau_A :: "instr list" where
  "tau_A = [Mfence, Lfence, Xor_rax_rax,
            Label ''retry'', Mov_al_byte_rcx, Shl_rax 12, Jz ''retry'', Mov_rbx_qword_rbx_rax]"

text \<open>The first \<^verbatim>\<open>asm volatile\<close> block of \<^verbatim>\<open>meltdown.c\<close> (inside a transaction).\<close>

definition tau_B :: "instr list" where
  "tau_B = [Mfence, Lfence, Xor_rax_rax, Xbegin ''skip'',
            Label ''retry'', Mov_al_byte_rcx, Shl_rax 12, Jz ''retry'', Mov_rbx_qword_rbx_rax,
            Xend, Label ''skip'']"

record cpu =
  pc :: nat
  rax :: "64 word"
  rbx :: "64 word"
  rcx :: "64 word"
  zf :: bool
  txn :: "(nat \<times> 64 word \<times> bool) option"
  reads :: nat
  events :: "event list"
  killed :: bool

fun label_pos :: "instr list \<Rightarrow> string \<Rightarrow> nat" where
  "label_pos [] l = 0"
| "label_pos (i # is) l = (if i = Label l then 0 else Suc (label_pos is l))"

definition load_qword :: "memory \<Rightarrow> addr \<Rightarrow> 64 word" where
  "load_qword m a = word_rcat (rev (map (\<lambda>j. m (a + of_nat j)) [0..<8]))"

text \<open>
  A fault inside a transaction aborts it: the registers are those of \<^verbatim>\<open>xbegin\<close>
  again, \<^verbatim>\<open>eax\<close> holds the abort status and execution continues at the fallback
  address. Outside a transaction the fault is delivered to the process.
\<close>

definition raise_fault :: "env \<Rightarrow> cpu \<Rightarrow> cpu" where
  "raise_fault e s =
     (case txn s of
        None \<Rightarrow> s\<lparr>killed := True\<rparr>
      | Some (fallback, b, z) \<Rightarrow>
          s\<lparr>pc := fallback, rax := ucast (abort_status e), rbx := b, zf := z,
            txn := None, events := events s @ [TxAbort]\<rparr>)"

fun exec_instr :: "env \<Rightarrow> memory \<Rightarrow> instr list \<Rightarrow> instr \<Rightarrow> cpu \<Rightarrow> cpu" where
  "exec_instr e m prog Mfence s = s\<lparr>pc := pc s + 1\<rparr>"
| "exec_instr e m prog Lfence s = s\<lparr>pc := pc s + 1\<rparr>"
| "exec_instr e m prog Xor_rax_rax s = s\<lparr>rax := 0, zf := True, pc := pc s + 1\<rparr>"
| "exec_instr e m prog (Xbegin l) s =
     s\<lparr>txn := Some (label_pos prog l, rbx s, zf s), events := events s @ [TxBegin], pc := pc s + 1\<rparr>"
| "exec_instr e m prog (Label l) s = s\<lparr>pc := pc s + 1\<rparr>"
| "exec_instr e m prog Mov_al_byte_rcx s =
     (let s' = s\<lparr>events := events s @ [ByteLoad (rcx s)], reads := reads s + 1\<rparr>
      in if faults e (rcx s) then raise_fault e s'
         else s'\<lparr>rax := (rax s AND NOT 0xFF) OR ucast (observe e (reads s) (m (rcx s))),
                 pc := pc s + 1\<rparr>)"
| "exec_instr e m prog (Shl_rax n) s =
     (if n mod 64 = 0 then s\<lparr>pc := pc s + 1\<rparr>
      else s\<lparr>rax := push_bit (n mod 64) (rax s), zf := (push_bit (n mod 64) (rax s) = 0),
             pc := pc s + 1\<rparr>)"
| "exec_instr e m prog (Jz l) s =
     (if zf s then s\<lparr>pc := label_pos prog l\<rparr> else s\<lparr>pc := pc s + 1\<rparr>)"
| "exec_instr e m prog Mov_rbx_qword_rbx_rax s =
     (let a = rbx s + rax s; s' = s\<lparr>events := events s @ [IndexedLoad a]\<rparr>
      in if faults e a then raise_fault e s'
         else s'\<lparr>rbx := load_qword m a, pc := pc s + 1\<rparr>)"
| "exec_instr e m prog Xend s =
     (case txn s of
        None \<Rightarrow> s\<lparr>killed := True\<rparr>
      | Some t \<Rightarrow> s\<lparr>txn := None, events := events s @ [TxEnd], pc := pc s + 1\<rparr>)"

text \<open>
  Running a block: until the program counter leaves it or a fault is delivered. The
  \<^verbatim>\<open>retry\<close> loop has no bound, so a run need not end: \<open>None\<close>.
\<close>

partial_function (option) run :: "env \<Rightarrow> memory \<Rightarrow> instr list \<Rightarrow> cpu \<Rightarrow> cpu option" where
  "run e m prog s =
     (if killed s \<or> length prog \<le> pc s then Some s
      else run e m prog (exec_instr e m prog (prog ! pc s) s))"

text \<open>
  Entry of the block, with the input operands bound as the constraints say:
  \<^verbatim>\<open>"c" (&some_data)\<close> and \<^verbatim>\<open>"b" (probe_array)\<close>. The register \<^verbatim>\<open>rax\<close> is
  no operand, so it and the flags hold what the environment left there.
\<close>

definition asm_entry :: "env \<Rightarrow> addr \<Rightarrow> world \<Rightarrow> cpu" where
  "asm_entry e probe_array w =
     \<lparr>pc = 0, rax = entry_rax e (nloads w), rbx = probe_array, rcx = secret_addr e,
      zf = entry_zf e (nloads w), txn = None,
      reads = nloads w, events = [], killed = False\<rparr>"

definition transient_access :: "env \<Rightarrow> instr list \<Rightarrow> addr \<Rightarrow> world \<Rightarrow> (stop \<times> world) + world" where
  "transient_access e prog probe_array w =
     (case run e (mem w) prog (asm_entry e probe_array w) of
        None \<Rightarrow> Inl (Hang, w)
      | Some s \<Rightarrow>
          (let w' = w\<lparr>trace := trace w @ events s, nloads := reads s\<rparr>
           in if killed s then Inl (Segv, w') else Inr w'))"

section \<open>The timing block\<close>

text \<open>
  \<^verbatim>\<open>rdtsc; mov esi, eax; mov rax, QWORD PTR [p]; rdtsc; sub eax, esi; mov time, eax\<close>
  between the fences: the difference of the low halves of two counter readings, in 32 bits.
\<close>

definition timed_read :: "env \<Rightarrow> addr \<Rightarrow> world \<Rightarrow> (stop \<times> world) + (32 word \<times> world)" where
  "timed_read e a w =
     (let esi = (ucast (tsc e (ntsc w)) :: 32 word);
          w1 = w\<lparr>trace := trace w @ [TimedLoad a], ntsc := ntsc w + 1\<rparr>
      in if faults e a then Inl (Segv, w1)
         else (let eax = (ucast (tsc e (ntsc w1)) :: 32 word)
               in Inr (eax - esi, w1\<lparr>ntsc := ntsc w1 + 1\<rparr>)))"

section \<open>The two programs\<close>

text \<open>The measuring loop of \<^verbatim>\<open>main.c\<close>: every sample is printed.\<close>

function table_loop :: "env \<Rightarrow> addr \<Rightarrow> nat \<Rightarrow> world \<Rightarrow> (stop \<times> world) + world" where
  "table_loop e probe_array i w =
     (if i < 256 then
        (case transient_access e tau_A probe_array w of
           Inl x \<Rightarrow> Inl x
         | Inr w1 \<Rightarrow>
             (case timed_read e (slot_addr probe_array i) w1 of
                Inl x \<Rightarrow> Inl x
              | Inr (time, w2) \<Rightarrow>
                  table_loop e probe_array (i + 1) (w2\<lparr>out := out w2 @ [(int i, time)]\<rparr>)))
      else Inr w)"
  by pat_completeness auto
termination
  by (relation "measure (\<lambda>(e, p, i, w). 256 - i)") auto

definition main_c :: "env \<Rightarrow> stop \<times> world" where
  "main_c e =
     (let w0 = init_world e;
          w1 = w0\<lparr>mem := (mem w0)(secret_addr e := 0xFF)\<rparr>;
          (probe_array, w2) = calloc e (4096 * 256) 1 w1
      in case flush_loop e probe_array 0 w2 of
           Inl x \<Rightarrow> x
         | Inr w3 \<Rightarrow>
             (case table_loop e probe_array 0 w3 of
                Inl x \<Rightarrow> x
              | Inr w4 \<Rightarrow> (Exit 0, w4)))"

text \<open>The measuring loop of \<^verbatim>\<open>meltdown.c\<close>: a running minimum.\<close>

function guess_loop ::
  "env \<Rightarrow> addr \<Rightarrow> nat \<Rightarrow> 32 word \<Rightarrow> int \<Rightarrow> world \<Rightarrow> (stop \<times> world) + (32 word \<times> int \<times> world)" where
  "guess_loop e probe_array i lowestTime lowestVal w =
     (if i < 256 then
        (case transient_access e tau_B probe_array w of
           Inl x \<Rightarrow> Inl x
         | Inr w1 \<Rightarrow>
             (case timed_read e (slot_addr probe_array i) w1 of
                Inl x \<Rightarrow> Inl x
              | Inr (time, w2) \<Rightarrow>
                  (if time < lowestTime then guess_loop e probe_array (i + 1) time (int i) w2
                   else guess_loop e probe_array (i + 1) lowestTime lowestVal w2)))
      else Inr (lowestTime, lowestVal, w))"
  by pat_completeness auto
termination
  by (relation "measure (\<lambda>(e, p, i, lt, lv, w). 256 - i)") auto

definition meltdown_c :: "env \<Rightarrow> stop \<times> world" where
  "meltdown_c e =
     (let w0 = init_world e;
          w1 = w0\<lparr>mem := (mem w0)(secret_addr e := 0xFF)\<rparr>;
          (probe_array, w2) = calloc e (4096 * 256) 1 w1
      in if probe_array = NULL then
           (Exit 1, w2\<lparr>err := err w2 @ [''Failed to allocate memory for side channel!'']\<rparr>)
         else
           (case flush_loop e probe_array 0 w2 of
              Inl x \<Rightarrow> x
            | Inr w3 \<Rightarrow>
                (case guess_loop e probe_array 0 UINT32_MAX (- 1) w3 of
                   Inl x \<Rightarrow> x
                 | Inr (lowestTime, lowestVal, w4) \<Rightarrow>
                     (Exit 0, w4\<lparr>out := out w4 @ [(lowestVal, lowestTime)]\<rparr>))))"


section \<open>Auxiliary notions for the proofs\<close>

text \<open>Execution of a block for at most \<open>n\<close> instructions.\<close>

fun exec_n :: "env \<Rightarrow> memory \<Rightarrow> instr list \<Rightarrow> nat \<Rightarrow> cpu \<Rightarrow> cpu" where
  "exec_n e m prog 0 s = s"
| "exec_n e m prog (Suc n) s =
     (if killed s \<or> length prog \<le> pc s then s
      else exec_n e m prog n (exec_instr e m prog (prog ! pc s) s))"


text \<open>
  The sample of iteration \<open>i\<close> of a measuring loop that is not cut short: the loop
  executes \<^verbatim>\<open>rdtsc\<close> twice per iteration, so iteration \<open>i\<close> sees readings
  \<open>2 * i\<close> and \<open>2 * i + 1\<close>. The timing table is the sequence of the 256 samples.
\<close>

definition sample :: "env \<Rightarrow> nat \<Rightarrow> 32 word" where
  "sample e i = ucast (tsc e (2 * i + 1)) - ucast (tsc e (2 * i))"

definition timing_table :: "env \<Rightarrow> 32 word list" where
  "timing_table e = map (sample e) [0..<256]"

text \<open>The running minimum of \<^verbatim>\<open>meltdown.c\<close> on its own, over a list of slot indices.\<close>

fun running_min :: "(nat \<Rightarrow> 32 word) \<Rightarrow> nat list \<Rightarrow> 32 word \<times> int \<Rightarrow> 32 word \<times> int" where
  "running_min f [] acc = acc"
| "running_min f (j # js) (lowestTime, lowestVal) =
     running_min f js (if f j < lowestTime then (f j, int j) else (lowestTime, lowestVal))"

fun is_flush :: "event \<Rightarrow> bool" where
  "is_flush (Clflush a) = True"
| "is_flush _ = False"

text \<open>The states of a \<^verbatim>\<open>retry\<close> loop (label at position \<open>k\<close>) that reads zero.\<close>

definition spinning :: "nat \<Rightarrow> addr \<Rightarrow> cpu \<Rightarrow> bool" where
  "spinning k c s \<longleftrightarrow>
     \<not> killed s \<and> rcx s = c \<and> rax s = 0 \<and>
     (pc s = k \<or> pc s = k + 1 \<or> pc s = k + 2 \<or> pc s = k + 3 \<and> zf s)"

text \<open>
  What a transient access block may emit: no flush, no timed load, and indexed loads
  only at the probe array plus a byte shifted left by 12.
\<close>

definition tau_events_ok :: "addr \<Rightarrow> event list \<Rightarrow> bool" where
  "tau_events_ok p evs \<longleftrightarrow>
     (\<forall>ev\<in>set evs. \<not> is_flush ev \<and> (\<forall>a. ev \<noteq> TimedLoad a) \<and>
        (\<forall>a. ev = IndexedLoad a \<longrightarrow> (\<exists>b::8 word. a = p + push_bit 12 (ucast b))))"

definition inv_A :: "addr \<Rightarrow> cpu \<Rightarrow> bool" where
  "inv_A p s \<longleftrightarrow>
     tau_events_ok p (events s) \<and> txn s = None \<and>
     (killed s \<or>
      (pc s \<le> 7 \<longrightarrow> rbx s = p) \<and>
      (pc s = 3 \<or> pc s = 4 \<longrightarrow> rax s = 0) \<and>
      (pc s = 5 \<longrightarrow> (\<exists>b::8 word. rax s = ucast b)) \<and>
      (pc s = 6 \<or> pc s = 7 \<longrightarrow> (\<exists>b::8 word. rax s = push_bit 12 (ucast b))) \<and>
      (pc s = 6 \<longrightarrow> zf s = (rax s = 0)))"

definition inv_B :: "addr \<Rightarrow> cpu \<Rightarrow> bool" where
  "inv_B p s \<longleftrightarrow>
     tau_events_ok p (events s) \<and>
     (killed s \<or>
      (pc s \<le> 8 \<longrightarrow> rbx s = p) \<and>
      (pc s = 3 \<or> pc s = 4 \<or> pc s = 5 \<longrightarrow> rax s = 0) \<and>
      (pc s = 6 \<longrightarrow> (\<exists>b::8 word. rax s = ucast b)) \<and>
      (pc s = 7 \<or> pc s = 8 \<longrightarrow> (\<exists>b::8 word. rax s = push_bit 12 (ucast b))) \<and>
      (pc s = 7 \<longrightarrow> zf s = (rax s = 0)) \<and>
      (\<forall>t. txn s = Some t \<longrightarrow> fst t = 10))"

fun is_timed :: "event \<Rightarrow> bool" where
  "is_timed (TimedLoad a) = True"
| "is_timed _ = False"

text \<open>
  The memory the programs touch is mapped: \<^verbatim>\<open>some_data\<close> and the first bytes of the
  256 slots of the array at \<open>p\<close> can be accessed without a fault. Nothing is asked of
  any other address.
\<close>

definition mapped :: "env \<Rightarrow> addr \<Rightarrow> bool" where
  "mapped e p \<longleftrightarrow> \<not> faults e (secret_addr e) \<and> (\<forall>i<256. \<not> faults e (slot_addr p i))"

text \<open>
  An environment in which both programs run to their end: the allocation succeeds, the
  block and \<^verbatim>\<open>some_data\<close> are mapped and do not overlap, and from every point on some
  later read of \<^verbatim>\<open>some_data\<close> (which holds \<^verbatim>\<open>0xff\<close>) shows a nonzero byte.
\<close>

definition runnable :: "env \<Rightarrow> bool" where
  "runnable e \<longleftrightarrow>
     alloc_result e \<noteq> NULL \<and> \<not> secret_addr e - alloc_result e < 0x100000 \<and>
     mapped e (alloc_result e) \<and> (\<forall>n. \<exists>k. observe e (n + k) 0xFF \<noteq> 0)"

text \<open>
  A runnable environment without rolled-back reads: every read of \<^verbatim>\<open>some_data\<close>
  shows the stored byte.
\<close>

definition quiet :: "env \<Rightarrow> bool" where
  "quiet e \<longleftrightarrow>
     mapped e (alloc_result e) \<and> (\<forall>n v. observe e n v = v) \<and>
     alloc_result e \<noteq> NULL \<and> \<not> secret_addr e - alloc_result e < 0x100000"

text \<open>
  A quiet environment with a given block address and given samples. Page zero is not
  mapped, memory holds \<^verbatim>\<open>0xAA\<close> everywhere when the program starts, and \<^verbatim>\<open>rax\<close>
  holds leftovers when a block is entered.
\<close>

definition lab_env :: "addr \<Rightarrow> addr \<Rightarrow> (nat \<Rightarrow> 32 word) \<Rightarrow> env" where
  "lab_env base sa samples =
     \<lparr>alloc_result = base, secret_addr = sa, initial_mem = (\<lambda>a. 0xAA),
      faults = (\<lambda>a. a < 0x1000), observe = (\<lambda>n v. v),
      tsc = (\<lambda>n. if even n then 0 else ucast (samples (n div 2))),
      abort_status = 0, entry_rax = (\<lambda>n. 0x5A5A5A5A5A5A5A5A), entry_zf = (\<lambda>n. False)\<rparr>"

text \<open>An event on the probe array addresses the first byte of one of the 256 slots.\<close>

definition at_slot_start :: "addr \<Rightarrow> event \<Rightarrow> bool" where
  "at_slot_start p ev \<longleftrightarrow> (\<forall>a. probe_operand ev = Some a \<longrightarrow> (\<exists>i<256. a = slot_addr p i))"

definition measuring :: "addr \<Rightarrow> event \<Rightarrow> bool" where
  "measuring p ev \<longleftrightarrow> at_slot_start p ev \<and> \<not> is_flush ev"

text \<open>
  A later world of the same run: memory and standard error unchanged, the trace longer
  by events that all satisfy \<open>ok\<close>.
\<close>

definition extends :: "(event \<Rightarrow> bool) \<Rightarrow> world \<Rightarrow> world \<Rightarrow> bool" where
  "extends ok w w' \<longleftrightarrow>
     mem w' = mem w \<and> err w' = err w \<and>
     (\<exists>evs. trace w' = trace w @ evs \<and> (\<forall>ev\<in>set evs. ok ev))"

text \<open>
  The world when \<^verbatim>\<open>main\<close> has initialised \<^verbatim>\<open>some_data\<close>, and the world after the
  call of \<^verbatim>\<open>calloc\<close> that follows.
\<close>

definition boot :: "env \<Rightarrow> world" where
  "boot e = (init_world e)\<lparr>mem := (mem (init_world e))(secret_addr e := 0xFF)\<rparr>"

definition arena :: "env \<Rightarrow> world" where
  "arena e = snd (calloc e (4096 * 256) 1 (boot e))"

text \<open>The events of one iteration of each measuring loop in a quiet environment.\<close>

definition iter_A :: "addr \<Rightarrow> addr \<Rightarrow> nat \<Rightarrow> event list" where
  "iter_A p sa i = [ByteLoad sa, IndexedLoad (slot_addr p 255), TimedLoad (slot_addr p i)]"

definition iter_B :: "addr \<Rightarrow> addr \<Rightarrow> nat \<Rightarrow> event list" where
  "iter_B p sa i =
     [TxBegin, ByteLoad sa, IndexedLoad (slot_addr p 255), TxEnd, TimedLoad (slot_addr p i)]"

text \<open>
  Concrete environments: a block address as \<^verbatim>\<open>calloc\<close> hands it out for a large
  request (sixteen bytes into a page), a stack address for \<^verbatim>\<open>some_data\<close>, and
  three timing tables.
\<close>

definition probe_base :: addr where
  "probe_base = 0x7F0000000010"

definition stack_addr :: addr where
  "stack_addr = 0x7FFD00000000"

definition flat_samples :: "nat \<Rightarrow> 32 word" where
  "flat_samples i = UINT32_MAX"

definition peak_samples :: "nat \<Rightarrow> nat \<Rightarrow> 32 word" where
  "peak_samples k i = (if i = k then 40 else 400)"

definition tie_samples :: "nat \<Rightarrow> nat \<Rightarrow> nat \<Rightarrow> 32 word" where
  "tie_samples k l i = (if i = k \<or> i = l then 40 else 400)"

definition lab :: "(nat \<Rightarrow> 32 word) \<Rightarrow> env" where
  "lab samples = lab_env probe_base stack_addr samples"

text \<open>
  The world of \<^verbatim>\<open>main\<close> at its first assembly block, had \<^verbatim>\<open>some_data\<close> been
  initialised to 0.
\<close>

definition secret_zero :: world where
  "secret_zero =
     (init_world (lab flat_samples))\<lparr>mem := (initial_mem (lab flat_samples))(stack_addr := 0)\<rparr>"

text \<open>An environment in which the allocation fails and page zero is not mapped.\<close>

definition oom :: env where
  "oom = (lab flat_samples)\<lparr>alloc_result := NULL, faults := (\<lambda>a. a < 0x1000)\<rparr>"

section \<open>Words\<close>

lemma unat_byte_less: "unat (b::8 word) < 256"
  using unsigned_less [of b, where 'a = nat] by simp

lemma unat_ucast_byte: "unat (ucast (b::8 word) :: 64 word) = unat b"
proof -
  have "unat b < 2 ^ 64" using unat_byte_less [of b] by simp
  then show ?thesis
    by (simp add: unsigned_ucast_eq take_bit_nat_eq_self)
qed

lemma unat_shl12: "unat (push_bit 12 (ucast (b::8 word) :: 64 word)) = unat b * 4096"
proof -
  have "unat b * 4096 < 2 ^ 64" using unat_byte_less [of b] by simp
  then show ?thesis
    by (simp add: push_bit_eq_mult unat_word_ariths unat_ucast_byte)
qed

lemma shl12_eq_of_nat: "push_bit 12 (ucast (b::8 word) :: 64 word) = of_nat (unat b * 4096)"
proof -
  have "(of_nat (unat (push_bit 12 (ucast b :: 64 word))) :: 64 word) = push_bit 12 (ucast b)"
    by simp
  then show ?thesis by (simp only: unat_shl12)
qed

lemma shl12_nz: "b \<noteq> 0 \<Longrightarrow> push_bit 12 (ucast (b::8 word) :: 64 word) \<noteq> 0"
  by (metis mult_is_0 unat_shl12 unsigned_eq_0_iff zero_neq_numeral)

lemma run_halt: "killed s \<or> length prog \<le> pc s \<Longrightarrow> run e m prog s = Some s"
  by (subst run.simps) simp

lemma run_step:
  "\<not> killed s \<Longrightarrow> pc s < length prog \<Longrightarrow>
   run e m prog s = run e m prog (exec_instr e m prog (prog ! pc s) s)"
  by (subst run.simps) simp


lemma run_exec_n: "run e m prog s = run e m prog (exec_n e m prog n s)"
proof (induction n arbitrary: s)
  case 0
  show ?case by (simp only: exec_n.simps)
next
  case (Suc n)
  show ?case
  proof (cases "killed s \<or> length prog \<le> pc s")
    case True
    then have "exec_n e m prog (Suc n) s = s"
      by (simp only: exec_n.simps if_True)
    then show ?thesis by (simp only:)
  next
    case False
    then have unfold: "exec_n e m prog (Suc n) s =
        exec_n e m prog n (exec_instr e m prog (prog ! pc s) s)"
      by (simp only: exec_n.simps if_False)
    from False have "\<not> killed s" and "pc s < length prog"
      by auto
    then have "run e m prog s = run e m prog (exec_instr e m prog (prog ! pc s) s)"
      by (rule run_step)
    also have "\<dots> = run e m prog (exec_n e m prog n (exec_instr e m prog (prog ! pc s) s))"
      by (rule Suc.IH)
    finally show ?thesis by (simp only: unfold)
  qed
qed


section \<open>Executing the blocks\<close>

lemma tau_A_nth:
  "tau_A ! 0 = Mfence" "tau_A ! 1 = Lfence" "tau_A ! Suc 0 = Lfence" "tau_A ! Suc (Suc 0) = Xor_rax_rax" "tau_A ! 2 = Xor_rax_rax"
  "tau_A ! 3 = Label ''retry''" "tau_A ! 4 = Mov_al_byte_rcx" "tau_A ! 5 = Shl_rax 12"
  "tau_A ! 6 = Jz ''retry''" "tau_A ! 7 = Mov_rbx_qword_rbx_rax"
  "length tau_A = 8" "label_pos tau_A ''retry'' = 3"
  by (simp_all add: tau_A_def)

lemma tau_B_nth:
  "tau_B ! 0 = Mfence" "tau_B ! 1 = Lfence" "tau_B ! Suc 0 = Lfence" "tau_B ! Suc (Suc 0) = Xor_rax_rax"
  "tau_B ! Suc (Suc (Suc 0)) = Xbegin ''skip''" "tau_B ! 2 = Xor_rax_rax"
  "tau_B ! 3 = Xbegin ''skip''"
  "tau_B ! 4 = Label ''retry''" "tau_B ! 5 = Mov_al_byte_rcx" "tau_B ! 6 = Shl_rax 12"
  "tau_B ! 7 = Jz ''retry''" "tau_B ! 8 = Mov_rbx_qword_rbx_rax"
  "tau_B ! 9 = Xend" "tau_B ! 10 = Label ''skip''"
  "length tau_B = 11" "label_pos tau_B ''retry'' = 4" "label_pos tau_B ''skip'' = 10"
  by (simp_all add: tau_B_def)

lemma run_fuel:
  assumes "exec_n e m prog n s = t"
  shows "run e m prog s = run e m prog t"
  using run_exec_n [of e m prog s n] by (simp only: assms)

lemma run_fuel_halt:
  assumes "exec_n e m prog n s = t" and "killed t \<or> length prog \<le> pc t"
  shows "run e m prog s = Some t"
proof -
  have "run e m prog s = run e m prog t" using assms(1) by (rule run_fuel)
  also have "\<dots> = Some t" using assms(2) by (rule run_halt)
  finally show ?thesis .
qed

text \<open>Strategy A\<close>

lemma enter_A:
  "run e m tau_A (asm_entry e p w) =
   run e m tau_A \<lparr>pc = 3, rax = 0, rbx = p, rcx = secret_addr e, zf = True, txn = None,
                   reads = nloads w, events = [], killed = False\<rparr>"
  by (rule run_fuel [where n = "Suc (Suc (Suc 0))"]) (simp add: asm_entry_def tau_A_nth)

lemma spin_A:
  assumes "\<not> faults e c" and "\<forall>i<N. observe e (r + i) (m c) = 0"
  shows "run e m tau_A \<lparr>pc = 3, rax = 0, rbx = p, rcx = c, zf = True, txn = t,
                         reads = r, events = ev, killed = False\<rparr> =
         run e m tau_A \<lparr>pc = 3, rax = 0, rbx = p, rcx = c, zf = True, txn = t,
                         reads = r + N, events = ev @ replicate N (ByteLoad c), killed = False\<rparr>"
  using assms
proof (induction N arbitrary: r ev)
  case 0
  show ?case by simp
next
  case (Suc N)
  let ?s = "\<lparr>pc = 3, rax = 0, rbx = p, rcx = c, zf = True, txn = t,
             reads = r, events = ev, killed = False\<rparr>"
  let ?s' = "\<lparr>pc = 3, rax = 0, rbx = p, rcx = c, zf = True, txn = t,
             reads = Suc r, events = ev @ [ByteLoad c], killed = False\<rparr>"
  from Suc.prems(2) have "observe e (r + 0) (m c) = 0" by blast
  then have z0: "observe e r (m c) = 0" by simp
  have zs: "\<forall>i<N. observe e (Suc r + i) (m c) = 0"
  proof (intro allI impI)
    fix i assume "i < N"
    then have "Suc i < Suc N" by simp
    with Suc.prems(2) have "observe e (r + Suc i) (m c) = 0" by blast
    then show "observe e (Suc r + i) (m c) = 0" by simp
  qed
  have "exec_n e m tau_A (Suc (Suc (Suc (Suc 0)))) ?s = ?s'"
    using Suc.prems(1) z0 by (simp add: tau_A_nth Let_def)
  then have "run e m tau_A ?s = run e m tau_A ?s'"
    by (rule run_fuel)
  also have "\<dots> = run e m tau_A \<lparr>pc = 3, rax = 0, rbx = p, rcx = c, zf = True, txn = t,
       reads = Suc r + N, events = (ev @ [ByteLoad c]) @ replicate N (ByteLoad c), killed = False\<rparr>"
    using Suc.prems(1) zs by (rule Suc.IH)
  finally show ?case by (simp add: replicate_append_same)
qed

lemma leave_A:
  assumes "\<not> faults e c" and "observe e r (m c) = b" and "b \<noteq> 0"
    and "\<not> faults e (p + push_bit 12 (ucast b))"
  shows "run e m tau_A \<lparr>pc = 3, rax = 0, rbx = p, rcx = c, zf = True, txn = None,
                         reads = r, events = ev, killed = False\<rparr> =
         Some \<lparr>pc = 8, rax = push_bit 12 (ucast b), rbx = load_qword m (p + push_bit 12 (ucast b)),
               rcx = c, zf = False, txn = None, reads = Suc r,
               events = ev @ [ByteLoad c, IndexedLoad (p + push_bit 12 (ucast b))],
               killed = False\<rparr>"
  by (rule run_fuel_halt [where n = "Suc (Suc (Suc (Suc (Suc 0))))"])
     (use assms shl12_nz [of b] in \<open>simp_all add: tau_A_nth Let_def\<close>)

lemma leave_A_fault_secret:
  assumes "faults e c"
  shows "run e m tau_A \<lparr>pc = 3, rax = 0, rbx = p, rcx = c, zf = True, txn = None,
                         reads = r, events = ev, killed = False\<rparr> =
         Some \<lparr>pc = 4, rax = 0, rbx = p, rcx = c, zf = True, txn = None, reads = Suc r,
               events = ev @ [ByteLoad c], killed = True\<rparr>"
  by (rule run_fuel_halt [where n = "Suc (Suc 0)"])
     (use assms in \<open>simp_all add: tau_A_nth Let_def raise_fault_def\<close>)

text \<open>Strategy B\<close>

lemma enter_B:
  "run e m tau_B (asm_entry e p w) =
   run e m tau_B \<lparr>pc = 4, rax = 0, rbx = p, rcx = secret_addr e, zf = True,
                   txn = Some (10, p, True),
                   reads = nloads w, events = [TxBegin], killed = False\<rparr>"
  by (rule run_fuel [where n = "Suc (Suc (Suc (Suc 0)))"]) (simp add: asm_entry_def tau_B_nth)

lemma spin_B:
  assumes "\<not> faults e c" and "\<forall>i<N. observe e (r + i) (m c) = 0"
  shows "run e m tau_B \<lparr>pc = 4, rax = 0, rbx = p, rcx = c, zf = True, txn = t,
                         reads = r, events = ev, killed = False\<rparr> =
         run e m tau_B \<lparr>pc = 4, rax = 0, rbx = p, rcx = c, zf = True, txn = t,
                         reads = r + N, events = ev @ replicate N (ByteLoad c), killed = False\<rparr>"
  using assms
proof (induction N arbitrary: r ev)
  case 0
  show ?case by simp
next
  case (Suc N)
  let ?s = "\<lparr>pc = 4, rax = 0, rbx = p, rcx = c, zf = True, txn = t,
             reads = r, events = ev, killed = False\<rparr>"
  let ?s' = "\<lparr>pc = 4, rax = 0, rbx = p, rcx = c, zf = True, txn = t,
             reads = Suc r, events = ev @ [ByteLoad c], killed = False\<rparr>"
  from Suc.prems(2) have "observe e (r + 0) (m c) = 0" by blast
  then have z0: "observe e r (m c) = 0" by simp
  have zs: "\<forall>i<N. observe e (Suc r + i) (m c) = 0"
  proof (intro allI impI)
    fix i assume "i < N"
    then have "Suc i < Suc N" by simp
    with Suc.prems(2) have "observe e (r + Suc i) (m c) = 0" by blast
    then show "observe e (Suc r + i) (m c) = 0" by simp
  qed
  have "exec_n e m tau_B (Suc (Suc (Suc (Suc 0)))) ?s = ?s'"
    using Suc.prems(1) z0 by (simp add: tau_B_nth Let_def)
  then have "run e m tau_B ?s = run e m tau_B ?s'"
    by (rule run_fuel)
  also have "\<dots> = run e m tau_B \<lparr>pc = 4, rax = 0, rbx = p, rcx = c, zf = True, txn = t,
       reads = Suc r + N, events = (ev @ [ByteLoad c]) @ replicate N (ByteLoad c), killed = False\<rparr>"
    using Suc.prems(1) zs by (rule Suc.IH)
  finally show ?case by (simp add: replicate_append_same)
qed

lemma leave_B:
  assumes "\<not> faults e c" and "observe e r (m c) = b" and "b \<noteq> 0"
    and "\<not> faults e (p + push_bit 12 (ucast b))"
  shows "run e m tau_B \<lparr>pc = 4, rax = 0, rbx = p, rcx = c, zf = True, txn = Some (10, p, True),
                         reads = r, events = ev, killed = False\<rparr> =
         Some \<lparr>pc = 11, rax = push_bit 12 (ucast b), rbx = load_qword m (p + push_bit 12 (ucast b)),
               rcx = c, zf = False, txn = None, reads = Suc r,
               events = ev @ [ByteLoad c, IndexedLoad (p + push_bit 12 (ucast b)), TxEnd],
               killed = False\<rparr>"
  by (rule run_fuel_halt [where n = "Suc (Suc (Suc (Suc (Suc (Suc (Suc 0))))))"])
     (use assms shl12_nz [of b] in \<open>simp_all add: tau_B_nth Let_def\<close>)

lemma leave_B_fault_secret:
  assumes "faults e c"
  shows "run e m tau_B \<lparr>pc = 4, rax = 0, rbx = p, rcx = c, zf = True, txn = Some (10, p, True),
                         reads = r, events = ev, killed = False\<rparr> =
         Some \<lparr>pc = 11, rax = ucast (abort_status e), rbx = p, rcx = c, zf = True, txn = None,
               reads = Suc r, events = ev @ [ByteLoad c, TxAbort], killed = False\<rparr>"
  by (rule run_fuel_halt [where n = "Suc (Suc (Suc 0))"])
     (use assms in \<open>simp_all add: tau_B_nth Let_def raise_fault_def\<close>)

lemma leave_B_fault_probe:
  assumes "\<not> faults e c" and "observe e r (m c) = b" and "b \<noteq> 0"
    and "faults e (p + push_bit 12 (ucast b))"
  shows "run e m tau_B \<lparr>pc = 4, rax = 0, rbx = p, rcx = c, zf = True, txn = Some (10, p, True),
                         reads = r, events = ev, killed = False\<rparr> =
         Some \<lparr>pc = 11, rax = ucast (abort_status e), rbx = p, rcx = c, zf = True, txn = None,
               reads = Suc r,
               events = ev @ [ByteLoad c, IndexedLoad (p + push_bit 12 (ucast b)), TxAbort],
               killed = False\<rparr>"
  by (rule run_fuel_halt [where n = "Suc (Suc (Suc (Suc (Suc (Suc 0)))))"])
     (use assms shl12_nz [of b] in \<open>simp_all add: tau_B_nth Let_def raise_fault_def\<close>)

lemma tau_events_ok_Nil: "tau_events_ok p []"
  by (simp add: tau_events_ok_def)

lemma tau_events_ok_snoc:
  "tau_events_ok p (evs @ [ev]) \<longleftrightarrow>
     tau_events_ok p evs \<and> \<not> is_flush ev \<and> (\<forall>a. ev \<noteq> TimedLoad a) \<and>
     (\<forall>a. ev = IndexedLoad a \<longrightarrow> (\<exists>b::8 word. a = p + push_bit 12 (ucast b)))"
  by (auto simp add: tau_events_ok_def)

lemma tau_events_ok_Cons:
  "tau_events_ok p (ev # evs) \<longleftrightarrow>
     tau_events_ok p evs \<and> \<not> is_flush ev \<and> (\<forall>a. ev \<noteq> TimedLoad a) \<and>
     (\<forall>a. ev = IndexedLoad a \<longrightarrow> (\<exists>b::8 word. a = p + push_bit 12 (ucast b)))"
  by (auto simp add: tau_events_ok_def)

lemma tau_events_ok_append:
  "tau_events_ok p (xs @ ys) \<longleftrightarrow> tau_events_ok p xs \<and> tau_events_ok p ys"
  by (auto simp add: tau_events_ok_def)

lemma spinning_A_step:
  assumes "spinning 3 c s" "\<not> faults e c" "\<forall>n. observe e n (m c) = 0"
  shows "spinning 3 c (exec_instr e m tau_A (tau_A ! pc s) s)"
  using assms unfolding spinning_def
  by (auto simp add: tau_A_nth Let_def)

lemma spinning_B_step:
  assumes "spinning 4 c s" "\<not> faults e c" "\<forall>n. observe e n (m c) = 0"
  shows "spinning 4 c (exec_instr e m tau_B (tau_B ! pc s) s)"
  using assms unfolding spinning_def
  by (auto simp add: tau_B_nth Let_def)

lemma run_never:
  assumes step: "\<And>s. I s \<Longrightarrow> \<not> killed s \<and> pc s < length prog \<and> I (exec_instr e m prog (prog ! pc s) s)"
    and inv: "I s"
  shows "run e m prog s = None"
proof (cases "run e m prog s")
  case None
  then show ?thesis .
next
  case (Some y)
  have "e' = e \<longrightarrow> m' = m \<longrightarrow> prog' = prog \<longrightarrow> I s' \<longrightarrow> False"
    if "run e' m' prog' s' = Some y'" for e' m' prog' s' y'
  proof (rule run.raw_induct
      [where P = "\<lambda>e' m' prog' s' y'. e' = e \<longrightarrow> m' = m \<longrightarrow> prog' = prog \<longrightarrow> I s' \<longrightarrow> False",
        OF _ that], goal_cases)
    case (1 f e' m' prog' s' y')
    show ?case
    proof (intro impI)
      assume eq: "e' = e" "m' = m" "prog' = prog" and inv': "I s'"
      from step [OF inv'] have nk: "\<not> killed s'" and lt: "pc s' < length prog"
        and nx: "I (exec_instr e m prog (prog ! pc s') s')" by simp_all
      from 1(2) eq nk lt have "f e m prog (exec_instr e m prog (prog ! pc s') s') = Some y'"
        by (simp split: if_splits)
      with nx 1(1) show False by blast
    qed
  qed
  from this [OF Some] inv show ?thesis by blast
qed

lemma run_invariant:
  assumes step: "\<And>s. I s \<Longrightarrow> \<not> killed s \<Longrightarrow> pc s < length prog \<Longrightarrow>
                   I (exec_instr e m prog (prog ! pc s) s)"
    and fin: "run e m prog s = Some y" and inv: "I s"
  shows "I y"
proof -
  have "e' = e \<longrightarrow> m' = m \<longrightarrow> prog' = prog \<longrightarrow> I s' \<longrightarrow> I y'"
    if "run e' m' prog' s' = Some y'" for e' m' prog' s' y'
  proof (rule run.raw_induct
      [where P = "\<lambda>e' m' prog' s' y'. e' = e \<longrightarrow> m' = m \<longrightarrow> prog' = prog \<longrightarrow> I s' \<longrightarrow> I y'",
        OF _ that], goal_cases)
    case (1 f e' m' prog' s' y')
    show ?case
    proof (intro impI)
      assume eq: "e' = e" "m' = m" "prog' = prog" and inv': "I s'"
      show "I y'"
      proof (cases "killed s' \<or> length prog \<le> pc s'")
        case True
        with 1(2) eq have "y' = s'" by simp
        with inv' show ?thesis by simp
      next
        case False
        then have nk: "\<not> killed s'" and lt: "pc s' < length prog" by auto
        from 1(2) eq False have "f e m prog (exec_instr e m prog (prog ! pc s') s') = Some y'"
          by (simp split: if_splits)
        moreover have "I (exec_instr e m prog (prog ! pc s') s')"
          using inv' nk lt by (rule step)
        ultimately show ?thesis using 1(1) by blast
      qed
    qed
  qed
  from this [OF fin] inv show ?thesis by blast
qed

lemma hang_A:
  assumes "\<not> faults e (secret_addr e)" and "\<forall>n. observe e n (m (secret_addr e)) = 0"
  shows "run e m tau_A (asm_entry e p w) = None"
proof -
  let ?s = "\<lparr>pc = 3, rax = 0, rbx = p, rcx = secret_addr e, zf = True, txn = None,
                   reads = nloads w, events = [], killed = False\<rparr>"
  have "run e m tau_A ?s = None"
  proof (rule run_never [where I = "spinning 3 (secret_addr e)"])
    fix s assume "spinning 3 (secret_addr e) s"
    then show "\<not> killed s \<and> pc s < length tau_A \<and>
        spinning 3 (secret_addr e) (exec_instr e m tau_A (tau_A ! pc s) s)"
      using spinning_A_step [of "secret_addr e" s e m] assms
      by (auto simp add: spinning_def tau_A_nth)
  next
    show "spinning 3 (secret_addr e) ?s" by (simp add: spinning_def)
  qed
  then show ?thesis by (simp only: enter_A)
qed

lemma hang_B:
  assumes "\<not> faults e (secret_addr e)" and "\<forall>n. observe e n (m (secret_addr e)) = 0"
  shows "run e m tau_B (asm_entry e p w) = None"
proof -
  let ?s = "\<lparr>pc = 4, rax = 0, rbx = p, rcx = secret_addr e, zf = True,
                   txn = Some (10, p, True),
                   reads = nloads w, events = [TxBegin], killed = False\<rparr>"
  have "run e m tau_B ?s = None"
  proof (rule run_never [where I = "spinning 4 (secret_addr e)"])
    fix s assume "spinning 4 (secret_addr e) s"
    then show "\<not> killed s \<and> pc s < length tau_B \<and>
        spinning 4 (secret_addr e) (exec_instr e m tau_B (tau_B ! pc s) s)"
      using spinning_B_step [of "secret_addr e" s e m] assms
      by (auto simp add: spinning_def tau_B_nth)
  next
    show "spinning 4 (secret_addr e) ?s" by (simp add: spinning_def)
  qed
  then show ?thesis by (simp only: enter_B)
qed

lemma inv_A_step:
  assumes "inv_A p s" "\<not> killed s" "pc s < length tau_A"
  shows "inv_A p (exec_instr e m tau_A (tau_A ! pc s) s)"
proof -
  from assms(3) have "pc s < 8" by (simp add: tau_A_nth)
  then have "pc s = 0 \<or> pc s = 1 \<or> pc s = 2 \<or> pc s = 3 \<or> pc s = 4 \<or> pc s = 5 \<or>
      pc s = 6 \<or> pc s = 7"
    by arith
  then show ?thesis
    using assms(1,2)
    by (elim disjE)
       (auto simp add: inv_A_def tau_A_nth Let_def raise_fault_def tau_events_ok_append
             tau_events_ok_Cons tau_events_ok_Nil)
qed

lemma inv_B_step:
  assumes "inv_B p s" "\<not> killed s" "pc s < length tau_B"
  shows "inv_B p (exec_instr e m tau_B (tau_B ! pc s) s)"
proof -
  from assms(3) have "pc s < 11" by (simp add: tau_B_nth)
  then have "pc s = 0 \<or> pc s = 1 \<or> pc s = 2 \<or> pc s = 3 \<or> pc s = 4 \<or> pc s = 5 \<or>
      pc s = 6 \<or> pc s = 7 \<or> pc s = 8 \<or> pc s = 9 \<or> pc s = 10"
    by arith
  then show ?thesis
    using assms(1,2)
    by (elim disjE)
       (auto simp add: inv_B_def tau_B_nth Let_def raise_fault_def tau_events_ok_append
             tau_events_ok_Cons tau_events_ok_Nil split: option.splits)
qed

lemma tau_A_events:
  assumes "run e m tau_A (asm_entry e p w) = Some s"
  shows "tau_events_ok p (events s)"
proof -
  have "inv_A p s"
  proof (rule run_invariant [where I = "inv_A p", OF _ assms])
    show "inv_A p (asm_entry e p w)"
      by (simp add: inv_A_def asm_entry_def tau_events_ok_Nil)
  qed (rule inv_A_step)
  then show ?thesis by (simp add: inv_A_def)
qed

lemma tau_B_events:
  assumes "run e m tau_B (asm_entry e p w) = Some s"
  shows "tau_events_ok p (events s)"
proof -
  have "inv_B p s"
  proof (rule run_invariant [where I = "inv_B p", OF _ assms])
    show "inv_B p (asm_entry e p w)"
      by (simp add: inv_B_def asm_entry_def tau_events_ok_Nil)
  qed (rule inv_B_step)
  then show ?thesis by (simp add: inv_B_def)
qed

declare flush_loop.simps [simp del] table_loop.simps [simp del] guess_loop.simps [simp del]

lemma slot_addr_shl12: "p + push_bit 12 (ucast (b::8 word)) = slot_addr p (unat b)"
  by (simp add: slot_addr_def shl12_eq_of_nat)

lemma extends_refl: "extends ok w w"
  by (simp add: extends_def)

lemma extends_trans: "extends ok w w1 \<Longrightarrow> extends ok w1 w2 \<Longrightarrow> extends ok w w2"
  by (auto simp add: extends_def)

lemma extends_weaken:
  "extends ok w w' \<Longrightarrow> (\<And>ev. ok ev \<Longrightarrow> ok' ev) \<Longrightarrow> extends ok' w w'"
  by (auto simp add: extends_def)

lemma extends_out: "extends ok w w' \<Longrightarrow> extends ok w (w'\<lparr>out := x\<rparr>)"
  by (simp add: extends_def)

lemma extends_events:
  "\<forall>ev\<in>set evs. ok ev \<Longrightarrow> extends ok w (w\<lparr>trace := trace w @ evs, nloads := n\<rparr>)"
  by (auto simp add: extends_def)

lemma tau_events_measuring:
  assumes "tau_events_ok p evs"
  shows "\<forall>ev\<in>set evs. measuring p ev"
proof
  fix ev assume "ev \<in> set evs"
  with assms have nf: "\<not> is_flush ev" and nt: "\<forall>a. ev \<noteq> TimedLoad a"
    and il: "\<forall>a. ev = IndexedLoad a \<longrightarrow> (\<exists>b::8 word. a = p + push_bit 12 (ucast b))"
    by (auto simp add: tau_events_ok_def)
  have "at_slot_start p ev"
  proof (cases ev)
    case (IndexedLoad a)
    with il obtain b :: "8 word" where "a = p + push_bit 12 (ucast b)" by blast
    then have "a = slot_addr p (unat b)" by (simp only: slot_addr_shl12)
    with IndexedLoad unat_byte_less [of b] show ?thesis
      by (auto simp add: at_slot_start_def)
  qed (use nf nt in \<open>auto simp add: at_slot_start_def\<close>)
  with nf show "measuring p ev" by (simp add: measuring_def)
qed

lemma transient_access_A_extends:
  "transient_access e tau_A p w = Inl (st, w') \<Longrightarrow> extends (measuring p) w w'"
  "transient_access e tau_A p w = Inr w' \<Longrightarrow> extends (measuring p) w w'"
  using tau_A_events [of e "mem w" p w]
  by (auto simp add: transient_access_def Let_def extends_refl
        intro!: extends_events tau_events_measuring split: option.splits if_splits)

lemma transient_access_B_extends:
  "transient_access e tau_B p w = Inl (st, w') \<Longrightarrow> extends (measuring p) w w'"
  "transient_access e tau_B p w = Inr w' \<Longrightarrow> extends (measuring p) w w'"
  using tau_B_events [of e "mem w" p w]
  by (auto simp add: transient_access_def Let_def extends_refl
        intro!: extends_events tau_events_measuring split: option.splits if_splits)

lemma transient_access_ntsc:
  "transient_access e prog p w = Inr w' \<Longrightarrow> ntsc w' = ntsc w \<and> out w' = out w"
  by (auto simp add: transient_access_def Let_def split: option.splits if_splits)

lemma timed_read_Inr:
  "timed_read e a w = Inr (t, w') \<Longrightarrow>
     \<not> faults e a \<and> t = ucast (tsc e (ntsc w + 1)) - ucast (tsc e (ntsc w)) \<and>
     w' = w\<lparr>trace := trace w @ [TimedLoad a], ntsc := ntsc w + 2\<rparr>"
  by (auto simp add: timed_read_def Let_def split: if_splits)

lemma timed_read_Inl:
  "timed_read e a w = Inl (st, w') \<Longrightarrow>
     st = Segv \<and> w' = w\<lparr>trace := trace w @ [TimedLoad a], ntsc := ntsc w + 1\<rparr>"
  by (auto simp add: timed_read_def Let_def split: if_splits)

lemma timed_read_extends:
  assumes "i < 256"
  shows "timed_read e (slot_addr p i) w = Inl (st, w') \<Longrightarrow> extends (measuring p) w w'"
    and "timed_read e (slot_addr p i) w = Inr (t, w') \<Longrightarrow> extends (measuring p) w w'"
  using assms
  by (auto simp add: extends_def measuring_def at_slot_start_def
        dest!: timed_read_Inl timed_read_Inr)

lemma flush_loop_Inr:
  "flush_loop e p i w = Inr w' \<Longrightarrow>
     w' = w\<lparr>trace := trace w @ map (\<lambda>j. Clflush (slot_addr p j)) [i..<256]\<rparr>"
proof (induction e p i w rule: flush_loop.induct)
  case (1 e p i w)
  show ?case
  proof (cases "i < 256")
    case True
    let ?w1 = "w\<lparr>trace := trace w @ [Clflush (slot_addr p i)]\<rparr>"
    from "1.prems" True have c: "clflush e (slot_addr p i) w = Inr ?w1"
      and rec: "flush_loop e p (i + 1) ?w1 = Inr w'"
      by (auto simp add: flush_loop.simps [of e p i w] clflush_def Let_def split: if_splits)
    from "1.IH" [OF True c rec]
    have "w' = ?w1\<lparr>trace := trace ?w1 @ map (\<lambda>j. Clflush (slot_addr p j)) [i + 1..<256]\<rparr>" .
    then show ?thesis using True by (simp add: upt_conv_Cons)
  next
    case False
    with "1.prems" show ?thesis by (simp add: flush_loop.simps [of e p i w])
  qed
qed

lemma flush_loop_Inl:
  "flush_loop e p i w = Inl (st, w') \<Longrightarrow>
     st = Segv \<and> (\<exists>k. i < k \<and> k \<le> 256 \<and>
        w' = w\<lparr>trace := trace w @ map (\<lambda>j. Clflush (slot_addr p j)) [i..<k]\<rparr>)"
proof (induction e p i w rule: flush_loop.induct)
  case (1 e p i w)
  show ?case
  proof (cases "i < 256")
    case True
    let ?w1 = "w\<lparr>trace := trace w @ [Clflush (slot_addr p i)]\<rparr>"
    show ?thesis
    proof (cases "faults e (slot_addr p i)")
      case f: True
      with "1.prems" True have "st = Segv" "w' = ?w1"
        by (auto simp add: flush_loop.simps [of e p i w] clflush_def Let_def)
      moreover have "[i..<Suc i] = [i]" by simp
      ultimately have "st = Segv \<and> i < Suc i \<and> Suc i \<le> 256 \<and>
          w' = w\<lparr>trace := trace w @ map (\<lambda>j. Clflush (slot_addr p j)) [i..<Suc i]\<rparr>"
        using True by simp
      then show ?thesis by blast
    next
      case f: False
      with "1.prems" True have c: "clflush e (slot_addr p i) w = Inr ?w1"
        and rec: "flush_loop e p (i + 1) ?w1 = Inl (st, w')"
        by (auto simp add: flush_loop.simps [of e p i w] clflush_def Let_def)
      from "1.IH" [OF True c rec] obtain k where st: "st = Segv" and k: "i + 1 < k" "k \<le> 256"
        and w': "w' = ?w1\<lparr>trace := trace ?w1 @ map (\<lambda>j. Clflush (slot_addr p j)) [i + 1..<k]\<rparr>"
        by blast
      from k have "[i..<k] = i # [i + 1..<k]" by (simp add: upt_conv_Cons)
      with w' have "w' = w\<lparr>trace := trace w @ map (\<lambda>j. Clflush (slot_addr p j)) [i..<k]\<rparr>"
        by simp
      with st k have "st = Segv \<and> i < k \<and> k \<le> 256 \<and>
          w' = w\<lparr>trace := trace w @ map (\<lambda>j. Clflush (slot_addr p j)) [i..<k]\<rparr>"
        by simp
      then show ?thesis by blast
    qed
  next
    case False
    with "1.prems" show ?thesis by (simp add: flush_loop.simps [of e p i w])
  qed
qed

lemma table_loop_extends:
  "(table_loop e p i w = Inl (st, w') \<longrightarrow> extends (measuring p) w w') \<and>
   (table_loop e p i w = Inr w' \<longrightarrow> extends (measuring p) w w')"
proof (induction e p i w rule: table_loop.induct)
  case (1 e p i w)
  show ?case
  proof (cases "i < 256")
    case False
    then show ?thesis by (simp add: table_loop.simps [of e p i w] extends_refl)
  next
    case True
    show ?thesis
    proof (cases "transient_access e tau_A p w")
      case (Inl x)
      then show ?thesis using True transient_access_A_extends(1) [of e p w]
        by (cases x) (auto simp add: table_loop.simps [of e p i w])
    next
      case ta: (Inr w1)
      then have e1: "extends (measuring p) w w1" by (rule transient_access_A_extends(2))
      show ?thesis
      proof (cases "timed_read e (slot_addr p i) w1")
        case (Inl x)
        obtain st1 w1' where x: "x = (st1, w1')" by (cases x)
        with Inl True have "extends (measuring p) w1 w1'"
          using timed_read_extends(1) by blast
        with e1 have "extends (measuring p) w w1'" by (rule extends_trans)
        with Inl x ta True show ?thesis by (auto simp add: table_loop.simps [of e p i w])
      next
        case tr: (Inr y)
        obtain time w2 where y: "y = (time, w2)" by (cases y)
        with tr True have "extends (measuring p) w1 w2"
          using timed_read_extends(2) by blast
        with e1 have "extends (measuring p) w w2" by (rule extends_trans)
        then have e2: "extends (measuring p) w (w2\<lparr>out := out w2 @ [(int i, time)]\<rparr>)"
          by (rule extends_out)
        from "1.IH" [OF True ta tr y [symmetric]]
        have ih: "(table_loop e p (i + 1) (w2\<lparr>out := out w2 @ [(int i, time)]\<rparr>) = Inl (st, w') \<longrightarrow>
                   extends (measuring p) (w2\<lparr>out := out w2 @ [(int i, time)]\<rparr>) w') \<and>
                  (table_loop e p (i + 1) (w2\<lparr>out := out w2 @ [(int i, time)]\<rparr>) = Inr w' \<longrightarrow>
                   extends (measuring p) (w2\<lparr>out := out w2 @ [(int i, time)]\<rparr>) w')" .
        have unfold: "table_loop e p i w =
            table_loop e p (i + 1) (w2\<lparr>out := out w2 @ [(int i, time)]\<rparr>)"
          using True ta tr y by (simp add: table_loop.simps [of e p i w])
        from ih e2 show ?thesis unfolding unfold by (blast intro: extends_trans)
      qed
    qed
  qed
qed

lemma guess_loop_extends:
  "(guess_loop e p i lt lv w = Inl (st, w') \<longrightarrow> extends (measuring p) w w') \<and>
   (guess_loop e p i lt lv w = Inr (lt', lv', w') \<longrightarrow> extends (measuring p) w w' \<and> out w' = out w)"
proof (induction e p i lt lv w rule: guess_loop.induct)
  case (1 e p i lt lv w)
  show ?case
  proof (cases "i < 256")
    case False
    then show ?thesis by (simp add: guess_loop.simps [of e p i lt lv w] extends_refl)
  next
    case True
    show ?thesis
    proof (cases "transient_access e tau_B p w")
      case (Inl x)
      then show ?thesis using True transient_access_B_extends(1) [of e p w]
        by (cases x) (auto simp add: guess_loop.simps [of e p i lt lv w])
    next
      case ta: (Inr w1)
      then have e1: "extends (measuring p) w w1" by (rule transient_access_B_extends(2))
      from ta have o1: "out w1 = out w" by (simp add: transient_access_ntsc)
      show ?thesis
      proof (cases "timed_read e (slot_addr p i) w1")
        case (Inl x)
        obtain st1 w1' where x: "x = (st1, w1')" by (cases x)
        with Inl True have "extends (measuring p) w1 w1'"
          using timed_read_extends(1) by blast
        with e1 have "extends (measuring p) w w1'" by (rule extends_trans)
        with Inl x ta True show ?thesis by (auto simp add: guess_loop.simps [of e p i lt lv w])
      next
        case tr: (Inr y)
        obtain time w2 where y: "y = (time, w2)" by (cases y)
        with tr True have "extends (measuring p) w1 w2"
          using timed_read_extends(2) by blast
        with e1 have e2: "extends (measuring p) w w2" by (rule extends_trans)
        from tr y have o2: "out w2 = out w1" by (auto dest: timed_read_Inr)
        show ?thesis
        proof (cases "time < lt")
          case lt: True
          have unfold: "guess_loop e p i lt lv w = guess_loop e p (i + 1) time (int i) w2"
            using True ta tr y lt by (simp add: guess_loop.simps [of e p i lt lv w])
          from "1.IH"(1) [OF True ta tr y [symmetric] lt] e2 o1 o2
          show ?thesis unfolding unfold by (auto intro: extends_trans)
        next
          case ge: False
          have unfold: "guess_loop e p i lt lv w = guess_loop e p (i + 1) lt lv w2"
            using True ta tr y ge by (simp add: guess_loop.simps [of e p i lt lv w])
          from "1.IH"(2) [OF True ta tr y [symmetric] ge] e2 o1 o2
          show ?thesis unfolding unfold by (auto intro: extends_trans)
        qed
      qed
    qed
  qed
qed

lemma guess_loop_decode:
  "guess_loop e p i lt lv w = Inr (lt', lv', w') \<Longrightarrow> ntsc w = 2 * i \<Longrightarrow>
     running_min (sample e) [i..<256] (lt, lv) = (lt', lv')"
proof (induction e p i lt lv w rule: guess_loop.induct)
  case (1 e p i lt lv w)
  show ?case
  proof (cases "i < 256")
    case False
    with "1.prems"(1) show ?thesis by (simp add: guess_loop.simps [of e p i lt lv w])
  next
    case True
    then have upt: "[i..<256] = i # [i + 1..<256]" by (simp add: upt_conv_Cons)
    from "1.prems"(1) True obtain w1 where ta: "transient_access e tau_B p w = Inr w1"
      by (cases "transient_access e tau_B p w")
         (auto simp add: guess_loop.simps [of e p i lt lv w])
    from "1.prems"(1) True ta obtain y where tr: "timed_read e (slot_addr p i) w1 = Inr y"
      by (cases "timed_read e (slot_addr p i) w1")
         (auto simp add: guess_loop.simps [of e p i lt lv w])
    obtain time w2 where y: "y = (time, w2)" by (cases y)
    from ta "1.prems"(2) have n1: "ntsc w1 = 2 * i" by (simp add: transient_access_ntsc)
    from tr y have "time = ucast (tsc e (ntsc w1 + 1)) - ucast (tsc e (ntsc w1))"
      and "ntsc w2 = ntsc w1 + 2"
      by (auto dest: timed_read_Inr)
    with n1 have time: "time = sample e i" and n2: "ntsc w2 = 2 * (i + 1)"
      by (simp_all add: sample_def)
    show ?thesis
    proof (cases "time < lt")
      case lt: True
      have "guess_loop e p i lt lv w = guess_loop e p (i + 1) time (int i) w2"
        using True ta tr y lt by (simp add: guess_loop.simps [of e p i lt lv w])
      with "1.prems"(1) have "guess_loop e p (i + 1) time (int i) w2 = Inr (lt', lv', w')"
        by simp
      from "1.IH"(1) [OF True ta tr y [symmetric] lt this n2]
      show ?thesis using lt time by (simp add: upt)
    next
      case ge: False
      have "guess_loop e p i lt lv w = guess_loop e p (i + 1) lt lv w2"
        using True ta tr y ge by (simp add: guess_loop.simps [of e p i lt lv w])
      with "1.prems"(1) have "guess_loop e p (i + 1) lt lv w2 = Inr (lt', lv', w')"
        by simp
      from "1.IH"(2) [OF True ta tr y [symmetric] ge this n2]
      show ?thesis using ge time by (simp add: upt)
    qed
  qed
qed

section \<open>The running minimum\<close>

lemma running_min_append:
  "running_min f (xs @ ys) acc = running_min f ys (running_min f xs acc)"
proof (induction xs arbitrary: acc)
  case Nil
  show ?case by simp
next
  case (Cons x xs)
  show ?case by (cases acc) (simp add: Cons.IH)
qed

lemma running_min_keeps:
  "\<forall>j\<in>set js. \<not> f j < lt \<Longrightarrow> running_min f js (lt, lv) = (lt, lv)"
  by (induction js) simp_all

lemma running_min_above:
  "\<forall>j\<in>set js. t < f j \<Longrightarrow> t < lt \<Longrightarrow> t < fst (running_min f js (lt, lv))"
  by (induction js arbitrary: lt lv) simp_all

lemma running_min_first:
  assumes "k < n" and "f k < lt"
    and "\<forall>j<k. f k < f j" and "\<forall>j<n. f k \<le> f j"
  shows "running_min f [0..<n] (lt, lv) = (f k, int k)"
proof -
  from assms(1) have "[0..<n] = [0..<k] @ [k..<n]"
    using upt_add_eq_append [of 0 k "n - k"] by simp
  moreover from assms(1) have "[k..<n] = k # [Suc k..<n]"
    by (simp add: upt_conv_Cons)
  ultimately have split: "[0..<n] = [0..<k] @ k # [Suc k..<n]"
    by simp
  obtain lt1 lv1 where r1: "running_min f [0..<k] (lt, lv) = (lt1, lv1)"
    by (cases "running_min f [0..<k] (lt, lv)")
  have "f k < fst (running_min f [0..<k] (lt, lv))"
    using assms(2,3) by (intro running_min_above) auto
  with r1 have "f k < lt1" by simp
  then have r2: "running_min f [k] (lt1, lv1) = (f k, int k)" by simp
  have r3: "running_min f [Suc k..<n] (f k, int k) = (f k, int k)"
    using assms(4) by (intro running_min_keeps) (auto simp add: not_less)
  have "running_min f [0..<n] (lt, lv) =
        running_min f (k # [Suc k..<n]) (running_min f [0..<k] (lt, lv))"
    by (simp only: split running_min_append)
  also have "\<dots> = running_min f [Suc k..<n] (running_min f [k] (lt1, lv1))"
    by (simp only: r1 running_min.simps)
  also have "\<dots> = (f k, int k)"
    by (simp only: r2 r3)
  finally show ?thesis .
qed

lemma running_min_index:
  "running_min f js (lt, lv) = (lt', lv') \<Longrightarrow>
     (lv' = lv \<and> lt' = lt \<and> (\<forall>j\<in>set js. \<not> f j < lt)) \<or>
     (\<exists>j\<in>set js. lv' = int j \<and> lt' = f j \<and> f j < lt)"
proof (induction js arbitrary: lt lv)
  case Nil
  then show ?case by simp
next
  case (Cons j js)
  show ?case
  proof (cases "f j < lt")
    case True
    with Cons.prems have "running_min f js (f j, int j) = (lt', lv')" by simp
    from Cons.IH [OF this] True show ?thesis by auto
  next
    case False
    with Cons.prems have "running_min f js (lt, lv) = (lt', lv')" by simp
    from Cons.IH [OF this] False show ?thesis by auto
  qed
qed

section \<open>The programs as a whole\<close>

lemma calloc_fst: "fst (calloc e n sz w) = alloc_result e"
  by (simp add: calloc_def NULL_def)

lemma arena_fields:
  "trace (arena e) = []" "out (arena e) = []" "err (arena e) = []"
  "ntsc (arena e) = 0" "nloads (arena e) = 0"
  by (simp_all add: arena_def boot_def calloc_def init_world_def)

lemma main_c_unfold:
  "main_c e =
     (case flush_loop e (alloc_result e) 0 (arena e) of
        Inl x \<Rightarrow> x
      | Inr w3 \<Rightarrow>
          (case table_loop e (alloc_result e) 0 w3 of
             Inl x \<Rightarrow> x
           | Inr w4 \<Rightarrow> (Exit 0, w4)))"
proof -
  have "calloc e (4096 * 256) 1 (boot e) = (alloc_result e, arena e)"
    using calloc_fst [of e "4096 * 256" 1 "boot e"]
    by (simp add: arena_def prod_eq_iff)
  then show ?thesis
    by (simp add: main_c_def Let_def boot_def)
qed

lemma meltdown_c_unfold:
  "meltdown_c e =
     (if alloc_result e = NULL then
        (Exit 1, (arena e)\<lparr>err := [''Failed to allocate memory for side channel!'']\<rparr>)
      else
        (case flush_loop e (alloc_result e) 0 (arena e) of
           Inl x \<Rightarrow> x
         | Inr w3 \<Rightarrow>
             (case guess_loop e (alloc_result e) 0 UINT32_MAX (- 1) w3 of
                Inl x \<Rightarrow> x
              | Inr (lowestTime, lowestVal, w4) \<Rightarrow>
                  (Exit 0, w4\<lparr>out := out w4 @ [(lowestVal, lowestTime)]\<rparr>))))"
proof -
  have "calloc e (4096 * 256) 1 (boot e) = (alloc_result e, arena e)"
    using calloc_fst [of e "4096 * 256" 1 "boot e"]
    by (simp add: arena_def prod_eq_iff)
  then show ?thesis
    by (simp add: meltdown_c_def Let_def boot_def arena_fields)
qed

lemma transient_access_stop:
  "transient_access e prog p w = Inl (st, w') \<Longrightarrow> st = Segv \<or> st = Hang"
  by (auto simp add: transient_access_def Let_def split: option.splits if_splits)

lemma guess_loop_stop:
  "guess_loop e p i lt lv w = Inl (st, w') \<Longrightarrow> st = Segv \<or> st = Hang"
proof (induction e p i lt lv w rule: guess_loop.induct)
  case (1 e p i lt lv w)
  show ?case
  proof (cases "i < 256")
    case False
    with "1.prems" show ?thesis by (simp add: guess_loop.simps [of e p i lt lv w])
  next
    case True
    show ?thesis
    proof (cases "transient_access e tau_B p w")
      case (Inl x)
      with "1.prems" True have "transient_access e tau_B p w = Inl (st, w')"
        by (simp add: guess_loop.simps [of e p i lt lv w])
      then show ?thesis by (rule transient_access_stop)
    next
      case ta: (Inr w1)
      show ?thesis
      proof (cases "timed_read e (slot_addr p i) w1")
        case (Inl x)
        with "1.prems" True ta have "timed_read e (slot_addr p i) w1 = Inl (st, w')"
          by (simp add: guess_loop.simps [of e p i lt lv w])
        then show ?thesis by (simp add: timed_read_Inl)
      next
        case tr: (Inr y)
        obtain time w2 where y: "y = (time, w2)" by (cases y)
        show ?thesis
        proof (cases "time < lt")
          case lt: True
          with "1.prems" True ta tr y
          have "guess_loop e p (i + 1) time (int i) w2 = Inl (st, w')"
            by (simp add: guess_loop.simps [of e p i lt lv w])
          with "1.IH"(1) [OF True ta tr y [symmetric] lt] show ?thesis by blast
        next
          case ge: False
          with "1.prems" True ta tr y
          have "guess_loop e p (i + 1) lt lv w2 = Inl (st, w')"
            by (simp add: guess_loop.simps [of e p i lt lv w])
          with "1.IH"(2) [OF True ta tr y [symmetric] ge] show ?thesis by blast
        qed
      qed
    qed
  qed
qed

text \<open>A run of \<^verbatim>\<open>meltdown.c\<close> that returns 0 has gone through both loops.\<close>

lemma meltdown_c_Exit0:
  assumes "fst (meltdown_c e) = Exit 0"
  obtains w3 lt lv w4 where
    "alloc_result e \<noteq> NULL"
    "flush_loop e (alloc_result e) 0 (arena e) = Inr w3"
    "guess_loop e (alloc_result e) 0 UINT32_MAX (- 1) w3 = Inr (lt, lv, w4)"
    "meltdown_c e = (Exit 0, w4\<lparr>out := out w4 @ [(lv, lt)]\<rparr>)"
proof -
  from assms have nn: "alloc_result e \<noteq> NULL"
    by (auto simp add: meltdown_c_unfold split: if_splits)
  show ?thesis
  proof (cases "flush_loop e (alloc_result e) 0 (arena e)")
    case (Inl x)
    obtain st w' where "x = (st, w')" by (cases x)
    with Inl have "st = Segv" "fst (meltdown_c e) = st"
      using nn by (auto simp add: meltdown_c_unfold dest: flush_loop_Inl)
    with assms show ?thesis by simp
  next
    case fl: (Inr w3)
    show ?thesis
    proof (cases "guess_loop e (alloc_result e) 0 UINT32_MAX (- 1) w3")
      case (Inl x)
      obtain st w' where "x = (st, w')" by (cases x)
      with Inl fl have "st = Segv \<or> st = Hang" "fst (meltdown_c e) = st"
        using nn by (auto simp add: meltdown_c_unfold dest: guess_loop_stop)
      with assms show ?thesis by auto
    next
      case (Inr y)
      obtain lt lv w4 where "y = (lt, lv, w4)" by (cases y)
      with Inr fl nn that show ?thesis
        by (simp add: meltdown_c_unfold)
    qed
  qed
qed

lemma meltdown_c_out:
  assumes "fst (meltdown_c e) = Exit 0"
  shows "out (snd (meltdown_c e)) =
     [(snd (running_min (sample e) [0..<256] (UINT32_MAX, - 1)),
       fst (running_min (sample e) [0..<256] (UINT32_MAX, - 1)))]"
proof -
  from assms obtain w3 lt lv w4 where
    fl: "flush_loop e (alloc_result e) 0 (arena e) = Inr w3" and
    gl: "guess_loop e (alloc_result e) 0 UINT32_MAX (- 1) w3 = Inr (lt, lv, w4)" and
    res: "meltdown_c e = (Exit 0, w4\<lparr>out := out w4 @ [(lv, lt)]\<rparr>)"
    by (rule meltdown_c_Exit0)
  from fl have w3: "ntsc w3 = 0" "out w3 = []"
    by (auto dest!: flush_loop_Inr simp add: arena_fields)
  from gl w3(1) have "running_min (sample e) [0..<256] (UINT32_MAX, - 1) = (lt, lv)"
    by (intro guess_loop_decode) simp_all
  moreover from gl have "out w4 = out w3"
    using guess_loop_extends by blast
  ultimately show ?thesis using res w3(2) by simp
qed

lemma timing_table_nth: "i < 256 \<Longrightarrow> timing_table e ! i = sample e i"
  by (simp add: timing_table_def)

lemma below_UINT32_MAX: "\<not> x < UINT32_MAX \<longleftrightarrow> x = UINT32_MAX"
proof -
  have m: "(0xFFFFFFFF :: 32 word) = - 1" by simp
  have "x < - 1 \<or> x = - 1"
    using word_n1_ge [of x] by (simp only: le_less)
  then show ?thesis unfolding UINT32_MAX_def m by auto
qed

section \<open>Runs in a quiet environment\<close>

lemma tau_A_run:
  assumes "\<not> faults e (secret_addr e)"
    and "\<forall>i<N. observe e (nloads w + i) (m (secret_addr e)) = 0"
    and "observe e (nloads w + N) (m (secret_addr e)) = b" and "b \<noteq> 0"
    and "\<not> faults e (p + push_bit 12 (ucast b))"
  shows "run e m tau_A (asm_entry e p w) =
     Some \<lparr>pc = 8, rax = push_bit 12 (ucast b), rbx = load_qword m (p + push_bit 12 (ucast b)),
           rcx = secret_addr e, zf = False, txn = None, reads = Suc (nloads w + N),
           events = replicate (Suc N) (ByteLoad (secret_addr e)) @
                    [IndexedLoad (p + push_bit 12 (ucast b))],
           killed = False\<rparr>"
proof -
  have "run e m tau_A (asm_entry e p w) =
      run e m tau_A \<lparr>pc = 3, rax = 0, rbx = p, rcx = secret_addr e, zf = True, txn = None,
                     reads = nloads w, events = [], killed = False\<rparr>"
    by (rule enter_A)
  also have "\<dots> = run e m tau_A \<lparr>pc = 3, rax = 0, rbx = p, rcx = secret_addr e, zf = True,
       txn = None, reads = nloads w + N,
       events = [] @ replicate N (ByteLoad (secret_addr e)), killed = False\<rparr>"
    using assms(1,2) by (rule spin_A)
  also have "\<dots> = Some \<lparr>pc = 8, rax = push_bit 12 (ucast b),
       rbx = load_qword m (p + push_bit 12 (ucast b)),
       rcx = secret_addr e, zf = False, txn = None, reads = Suc (nloads w + N),
       events = ([] @ replicate N (ByteLoad (secret_addr e))) @
                [ByteLoad (secret_addr e), IndexedLoad (p + push_bit 12 (ucast b))],
       killed = False\<rparr>"
    using assms(1,3,4,5) by (rule leave_A)
  finally show ?thesis by (simp add: replicate_append_same)
qed

lemma tau_B_run:
  assumes "\<not> faults e (secret_addr e)"
    and "\<forall>i<N. observe e (nloads w + i) (m (secret_addr e)) = 0"
    and "observe e (nloads w + N) (m (secret_addr e)) = b" and "b \<noteq> 0"
    and "\<not> faults e (p + push_bit 12 (ucast b))"
  shows "run e m tau_B (asm_entry e p w) =
     Some \<lparr>pc = 11, rax = push_bit 12 (ucast b), rbx = load_qword m (p + push_bit 12 (ucast b)),
           rcx = secret_addr e, zf = False, txn = None, reads = Suc (nloads w + N),
           events = TxBegin # replicate (Suc N) (ByteLoad (secret_addr e)) @
                    [IndexedLoad (p + push_bit 12 (ucast b)), TxEnd],
           killed = False\<rparr>"
proof -
  have "run e m tau_B (asm_entry e p w) =
      run e m tau_B \<lparr>pc = 4, rax = 0, rbx = p, rcx = secret_addr e, zf = True,
                     txn = Some (10, p, True),
                     reads = nloads w, events = [TxBegin], killed = False\<rparr>"
    by (rule enter_B)
  also have "\<dots> = run e m tau_B \<lparr>pc = 4, rax = 0, rbx = p, rcx = secret_addr e, zf = True,
       txn = Some (10, p, True), reads = nloads w + N,
       events = [TxBegin] @ replicate N (ByteLoad (secret_addr e)), killed = False\<rparr>"
    using assms(1,2) by (rule spin_B)
  also have "\<dots> = Some \<lparr>pc = 11, rax = push_bit 12 (ucast b),
       rbx = load_qword m (p + push_bit 12 (ucast b)),
       rcx = secret_addr e, zf = False, txn = None, reads = Suc (nloads w + N),
       events = ([TxBegin] @ replicate N (ByteLoad (secret_addr e))) @
                [ByteLoad (secret_addr e), IndexedLoad (p + push_bit 12 (ucast b)), TxEnd],
       killed = False\<rparr>"
    using assms(1,3,4,5) by (rule leave_B)
  finally show ?thesis by (simp add: replicate_append_same)
qed

lemma shl12_0xFF: "p + push_bit 12 (ucast (0xFF :: 8 word)) = slot_addr p 255"
  by (simp add: slot_addr_def)

lemma mapped_secret: "mapped e p \<Longrightarrow> \<not> faults e (secret_addr e)"
  by (simp add: mapped_def)

lemma mapped_slot: "mapped e p \<Longrightarrow> i < 256 \<Longrightarrow> \<not> faults e (slot_addr p i)"
  by (simp add: mapped_def)

lemma mapped_byte: "mapped e p \<Longrightarrow> \<not> faults e (p + push_bit 12 (ucast (b::8 word)))"
  unfolding slot_addr_shl12 using unat_byte_less [of b] by (simp add: mapped_def)

lemma quiet_mapped: "quiet e \<Longrightarrow> mapped e (alloc_result e)"
  by (simp add: quiet_def)

lemma quiet_observe: "quiet e \<Longrightarrow> \<forall>n v. observe e n v = v"
  by (simp add: quiet_def)

lemma transient_access_B_run:
  assumes "mapped e p"
    and "\<forall>i<N. observe e (nloads w + i) (mem w (secret_addr e)) = 0"
    and "observe e (nloads w + N) (mem w (secret_addr e)) = b" and "b \<noteq> 0"
  shows "transient_access e tau_B p w =
     Inr (w\<lparr>trace := trace w @ TxBegin # replicate (Suc N) (ByteLoad (secret_addr e)) @
                                  [IndexedLoad (slot_addr p (unat b)), TxEnd],
            nloads := Suc (nloads w + N)\<rparr>)"
proof -
  from assms(1) have nf: "\<not> faults e (secret_addr e)" by (rule mapped_secret)
  from assms(1) have np: "\<not> faults e (p + push_bit 12 (ucast b))" by (rule mapped_byte)
  have "run e (mem w) tau_B (asm_entry e p w) =
     Some \<lparr>pc = 11, rax = push_bit 12 (ucast b),
           rbx = load_qword (mem w) (p + push_bit 12 (ucast b)),
           rcx = secret_addr e, zf = False, txn = None, reads = Suc (nloads w + N),
           events = TxBegin # replicate (Suc N) (ByteLoad (secret_addr e)) @
                    [IndexedLoad (p + push_bit 12 (ucast b)), TxEnd],
           killed = False\<rparr>"
    using nf assms(2,3,4) np by (rule tau_B_run)
  then show ?thesis
    by (simp add: transient_access_def slot_addr_shl12)
qed

lemma transient_access_B_quiet:
  assumes "mapped e p" and "\<forall>n v. observe e n v = v" and "mem w (secret_addr e) = 0xFF"
  shows "transient_access e tau_B p w =
     Inr (w\<lparr>trace := trace w @ [TxBegin, ByteLoad (secret_addr e),
                                  IndexedLoad (slot_addr p 255), TxEnd],
            nloads := Suc (nloads w)\<rparr>)"
proof -
  have z: "\<forall>i<0. observe e (nloads w + i) (mem w (secret_addr e)) = 0" by simp
  have o: "observe e (nloads w + 0) (mem w (secret_addr e)) = 0xFF"
    using assms(2,3) by simp
  have nz: "(0xFF :: 8 word) \<noteq> 0" by simp
  from transient_access_B_run [OF assms(1) z o nz] show ?thesis by simp
qed

lemma timed_read_quiet:
  assumes "\<not> faults e a"
  shows "timed_read e a w =
     Inr (ucast (tsc e (ntsc w + 1)) - ucast (tsc e (ntsc w)),
          w\<lparr>trace := trace w @ [TimedLoad a], ntsc := ntsc w + 2\<rparr>)"
  using assms by (simp add: timed_read_def Let_def)

lemma flush_loop_quiet:
  "mapped e p \<Longrightarrow> flush_loop e p i w =
     Inr (w\<lparr>trace := trace w @ map (\<lambda>j. Clflush (slot_addr p j)) [i..<256]\<rparr>)"
proof (induction e p i w rule: flush_loop.induct)
  case (1 e p i w)
  show ?case
  proof (cases "i < 256")
    case True
    let ?w1 = "w\<lparr>trace := trace w @ [Clflush (slot_addr p i)]\<rparr>"
    from "1.prems" True have c: "clflush e (slot_addr p i) w = Inr ?w1"
      by (simp add: clflush_def mapped_slot Let_def)
    from "1.IH" [OF True c "1.prems"] c True show ?thesis
      by (simp add: flush_loop.simps [of e p i w] upt_conv_Cons)
  next
    case False
    then show ?thesis by (simp add: flush_loop.simps [of e p i w])
  qed
qed

lemma guess_loop_quiet:
  "mapped e p \<Longrightarrow> \<forall>n v. observe e n v = v \<Longrightarrow> mem w (secret_addr e) = 0xFF \<Longrightarrow>
     \<exists>lt' lv'. guess_loop e p i lt lv w =
        Inr (lt', lv',
             w\<lparr>trace := trace w @ concat (map (iter_B p (secret_addr e)) [i..<256]),
               nloads := nloads w + (256 - i), ntsc := ntsc w + 2 * (256 - i)\<rparr>)"
proof (induction e p i lt lv w rule: guess_loop.induct)
  case (1 e p i lt lv w)
  show ?case
  proof (cases "i < 256")
    case False
    then show ?thesis by (simp add: guess_loop.simps [of e p i lt lv w])
  next
    case True
    let ?w1 = "w\<lparr>trace := trace w @ [TxBegin, ByteLoad (secret_addr e),
                                  IndexedLoad (slot_addr p 255), TxEnd],
                 nloads := Suc (nloads w)\<rparr>"
    let ?time = "(ucast (tsc e (ntsc ?w1 + 1)) - ucast (tsc e (ntsc ?w1))) :: 32 word"
    let ?w2 = "?w1\<lparr>trace := trace ?w1 @ [TimedLoad (slot_addr p i)], ntsc := ntsc ?w1 + 2\<rparr>"
    have ta: "transient_access e tau_B p w = Inr ?w1"
      using "1.prems" by (rule transient_access_B_quiet)
    have tr: "timed_read e (slot_addr p i) ?w1 = Inr (?time, ?w2)"
      using mapped_slot [OF "1.prems"(1) True] by (rule timed_read_quiet)
    have m2: "mem ?w2 (secret_addr e) = 0xFF" using "1.prems"(3) by simp
    have upt: "[i..<256] = i # [i + 1..<256]" using True by (simp add: upt_conv_Cons)
    have fin: "?w2\<lparr>trace := trace ?w2 @ concat (map (iter_B p (secret_addr e)) [i + 1..<256]),
                  nloads := nloads ?w2 + (256 - (i + 1)),
                  ntsc := ntsc ?w2 + 2 * (256 - (i + 1))\<rparr> =
               w\<lparr>trace := trace w @ concat (map (iter_B p (secret_addr e)) [i..<256]),
                 nloads := nloads w + (256 - i), ntsc := ntsc w + 2 * (256 - i)\<rparr>"
      using True by (simp add: upt iter_B_def)
    show ?thesis
    proof (cases "?time < lt")
      case lt: True
      have "guess_loop e p i lt lv w = guess_loop e p (i + 1) ?time (int i) ?w2"
        using True ta tr lt by (simp add: guess_loop.simps [of e p i lt lv w])
      moreover from "1.IH"(1) [OF True ta tr refl lt "1.prems"(1,2) m2]
      have "\<exists>lt' lv'. guess_loop e p (i + 1) ?time (int i) ?w2 =
          Inr (lt', lv',
               ?w2\<lparr>trace := trace ?w2 @ concat (map (iter_B p (secret_addr e)) [i + 1..<256]),
                  nloads := nloads ?w2 + (256 - (i + 1)),
                  ntsc := ntsc ?w2 + 2 * (256 - (i + 1))\<rparr>)" .
      ultimately show ?thesis by (simp only: fin)
    next
      case ge: False
      have "guess_loop e p i lt lv w = guess_loop e p (i + 1) lt lv ?w2"
        using True ta tr ge by (simp add: guess_loop.simps [of e p i lt lv w])
      moreover from "1.IH"(2) [OF True ta tr refl ge "1.prems"(1,2) m2]
      have "\<exists>lt' lv'. guess_loop e p (i + 1) lt lv ?w2 =
          Inr (lt', lv',
               ?w2\<lparr>trace := trace ?w2 @ concat (map (iter_B p (secret_addr e)) [i + 1..<256]),
                  nloads := nloads ?w2 + (256 - (i + 1)),
                  ntsc := ntsc ?w2 + 2 * (256 - (i + 1))\<rparr>)" .
      ultimately show ?thesis by (simp only: fin)
    qed
  qed
qed

lemma arena_secret:
  assumes "\<not> secret_addr e - alloc_result e < 0x100000"
  shows "mem (arena e) (secret_addr e) = 0xFF"
  using assms
  by (simp add: arena_def calloc_def boot_def init_world_def)

lemma quiet_secret: "quiet e \<Longrightarrow> mem (arena e) (secret_addr e) = 0xFF"
  by (rule arena_secret) (simp add: quiet_def)

lemma meltdown_c_quiet:
  assumes "quiet e"
  shows "fst (meltdown_c e) = Exit 0"
    and "trace (snd (meltdown_c e)) =
         map (\<lambda>j. Clflush (slot_addr (alloc_result e) j)) [0..<256] @
         concat (map (iter_B (alloc_result e) (secret_addr e)) [0..<256])"
proof -
  let ?p = "alloc_result e"
  let ?w3 = "(arena e)\<lparr>trace := trace (arena e) @ map (\<lambda>j. Clflush (slot_addr ?p j)) [0..<256]\<rparr>"
  from assms have nn: "?p \<noteq> NULL" by (simp add: quiet_def)
  have fl: "flush_loop e ?p 0 (arena e) = Inr ?w3"
    using quiet_mapped [OF assms] by (rule flush_loop_quiet)
  have "mem ?w3 (secret_addr e) = 0xFF" using quiet_secret [OF assms] by simp
  with quiet_mapped [OF assms] quiet_observe [OF assms] obtain lt' lv' where gl: "guess_loop e ?p 0 UINT32_MAX (- 1) ?w3 =
     Inr (lt', lv',
          ?w3\<lparr>trace := trace ?w3 @ concat (map (iter_B ?p (secret_addr e)) [0..<256]),
             nloads := nloads ?w3 + (256 - 0), ntsc := ntsc ?w3 + 2 * (256 - 0)\<rparr>)"
    using guess_loop_quiet [of e ?p ?w3 0 UINT32_MAX "- 1"] by blast
  from nn fl gl show "fst (meltdown_c e) = Exit 0"
    by (simp add: meltdown_c_unfold)
  from nn fl gl show "trace (snd (meltdown_c e)) =
         map (\<lambda>j. Clflush (slot_addr ?p j)) [0..<256] @
         concat (map (iter_B ?p (secret_addr e)) [0..<256])"
    by (simp add: meltdown_c_unfold arena_fields)
qed

lemma transient_access_A_run:
  assumes "mapped e p"
    and "\<forall>i<N. observe e (nloads w + i) (mem w (secret_addr e)) = 0"
    and "observe e (nloads w + N) (mem w (secret_addr e)) = b" and "b \<noteq> 0"
  shows "transient_access e tau_A p w =
     Inr (w\<lparr>trace := trace w @ replicate (Suc N) (ByteLoad (secret_addr e)) @
                                  [IndexedLoad (slot_addr p (unat b))],
            nloads := Suc (nloads w + N)\<rparr>)"
proof -
  from assms(1) have nf: "\<not> faults e (secret_addr e)" by (rule mapped_secret)
  from assms(1) have np: "\<not> faults e (p + push_bit 12 (ucast b))" by (rule mapped_byte)
  have "run e (mem w) tau_A (asm_entry e p w) =
     Some \<lparr>pc = 8, rax = push_bit 12 (ucast b),
           rbx = load_qword (mem w) (p + push_bit 12 (ucast b)),
           rcx = secret_addr e, zf = False, txn = None, reads = Suc (nloads w + N),
           events = replicate (Suc N) (ByteLoad (secret_addr e)) @
                    [IndexedLoad (p + push_bit 12 (ucast b))],
           killed = False\<rparr>"
    using nf assms(2,3,4) np by (rule tau_A_run)
  then show ?thesis
    by (simp add: transient_access_def slot_addr_shl12)
qed

lemma transient_access_A_quiet:
  assumes "mapped e p" and "\<forall>n v. observe e n v = v" and "mem w (secret_addr e) = 0xFF"
  shows "transient_access e tau_A p w =
     Inr (w\<lparr>trace := trace w @ [ByteLoad (secret_addr e), IndexedLoad (slot_addr p 255)],
            nloads := Suc (nloads w)\<rparr>)"
proof -
  have z: "\<forall>i<0. observe e (nloads w + i) (mem w (secret_addr e)) = 0" by simp
  have o: "observe e (nloads w + 0) (mem w (secret_addr e)) = 0xFF"
    using assms(2,3) by simp
  have nz: "(0xFF :: 8 word) \<noteq> 0" by simp
  from transient_access_A_run [OF assms(1) z o nz] show ?thesis by simp
qed

lemma table_loop_quiet:
  "mapped e p \<Longrightarrow> \<forall>n v. observe e n v = v \<Longrightarrow> mem w (secret_addr e) = 0xFF \<Longrightarrow>
     \<exists>lines. table_loop e p i w =
        Inr (w\<lparr>trace := trace w @ concat (map (iter_A p (secret_addr e)) [i..<256]),
               nloads := nloads w + (256 - i), ntsc := ntsc w + 2 * (256 - i),
               out := lines\<rparr>)"
proof (induction e p i w rule: table_loop.induct)
  case (1 e p i w)
  show ?case
  proof (cases "i < 256")
    case False
    then have "table_loop e p i w = Inr (w\<lparr>trace := trace w @ concat (map (iter_A p (secret_addr e)) [i..<256]),
               nloads := nloads w + (256 - i), ntsc := ntsc w + 2 * (256 - i),
               out := out w\<rparr>)"
      by (simp add: table_loop.simps [of e p i w])
    then show ?thesis by blast
  next
    case True
    let ?w1 = "w\<lparr>trace := trace w @ [ByteLoad (secret_addr e), IndexedLoad (slot_addr p 255)],
                 nloads := Suc (nloads w)\<rparr>"
    let ?time = "(ucast (tsc e (ntsc ?w1 + 1)) - ucast (tsc e (ntsc ?w1))) :: 32 word"
    let ?w2 = "?w1\<lparr>trace := trace ?w1 @ [TimedLoad (slot_addr p i)], ntsc := ntsc ?w1 + 2\<rparr>"
    let ?w3 = "?w2\<lparr>out := out ?w2 @ [(int i, ?time)]\<rparr>"
    have ta: "transient_access e tau_A p w = Inr ?w1"
      using "1.prems" by (rule transient_access_A_quiet)
    have tr: "timed_read e (slot_addr p i) ?w1 = Inr (?time, ?w2)"
      using mapped_slot [OF "1.prems"(1) True] by (rule timed_read_quiet)
    have m3: "mem ?w3 (secret_addr e) = 0xFF" using "1.prems"(3) by simp
    have upt: "[i..<256] = i # [i + 1..<256]" using True by (simp add: upt_conv_Cons)
    have unfold: "table_loop e p i w = table_loop e p (i + 1) ?w3"
      using True ta tr by (simp add: table_loop.simps [of e p i w])
    from "1.IH" [OF True ta tr refl "1.prems"(1,2) m3]
    obtain lines where "table_loop e p (i + 1) ?w3 =
        Inr (?w3\<lparr>trace := trace ?w3 @ concat (map (iter_A p (secret_addr e)) [i + 1..<256]),
               nloads := nloads ?w3 + (256 - (i + 1)), ntsc := ntsc ?w3 + 2 * (256 - (i + 1)),
               out := lines\<rparr>)"
      by blast
    moreover have "?w3\<lparr>trace := trace ?w3 @ concat (map (iter_A p (secret_addr e)) [i + 1..<256]),
               nloads := nloads ?w3 + (256 - (i + 1)), ntsc := ntsc ?w3 + 2 * (256 - (i + 1)),
               out := lines\<rparr> =
          w\<lparr>trace := trace w @ concat (map (iter_A p (secret_addr e)) [i..<256]),
               nloads := nloads w + (256 - i), ntsc := ntsc w + 2 * (256 - i),
               out := lines\<rparr>"
      using True by (simp add: upt iter_A_def)
    ultimately show ?thesis unfolding unfold by auto
  qed
qed

lemma main_c_quiet:
  assumes "quiet e"
  shows "fst (main_c e) = Exit 0"
    and "trace (snd (main_c e)) =
         map (\<lambda>j. Clflush (slot_addr (alloc_result e) j)) [0..<256] @
         concat (map (iter_A (alloc_result e) (secret_addr e)) [0..<256])"
proof -
  let ?p = "alloc_result e"
  let ?w3 = "(arena e)\<lparr>trace := trace (arena e) @ map (\<lambda>j. Clflush (slot_addr ?p j)) [0..<256]\<rparr>"
  have fl: "flush_loop e ?p 0 (arena e) = Inr ?w3"
    using quiet_mapped [OF assms] by (rule flush_loop_quiet)
  have "mem ?w3 (secret_addr e) = 0xFF" using quiet_secret [OF assms] by simp
  with quiet_mapped [OF assms] quiet_observe [OF assms] obtain lines where gl: "table_loop e ?p 0 ?w3 =
     Inr (?w3\<lparr>trace := trace ?w3 @ concat (map (iter_A ?p (secret_addr e)) [0..<256]),
             nloads := nloads ?w3 + (256 - 0), ntsc := ntsc ?w3 + 2 * (256 - 0),
             out := lines\<rparr>)"
    using table_loop_quiet [of e ?p ?w3 0] by blast
  from fl gl show "fst (main_c e) = Exit 0"
    by (simp add: main_c_unfold)
  from fl gl show "trace (snd (main_c e)) =
         map (\<lambda>j. Clflush (slot_addr ?p j)) [0..<256] @
         concat (map (iter_A ?p (secret_addr e)) [0..<256])"
    by (simp add: main_c_unfold arena_fields)
qed

lemma table_loop_stop:
  "table_loop e p i w = Inl (st, w') \<Longrightarrow> st = Segv \<or> st = Hang"
proof (induction e p i w rule: table_loop.induct)
  case (1 e p i w)
  show ?case
  proof (cases "i < 256")
    case False
    with "1.prems" show ?thesis by (simp add: table_loop.simps [of e p i w])
  next
    case True
    show ?thesis
    proof (cases "transient_access e tau_A p w")
      case (Inl x)
      with "1.prems" True have "transient_access e tau_A p w = Inl (st, w')"
        by (simp add: table_loop.simps [of e p i w])
      then show ?thesis by (rule transient_access_stop)
    next
      case ta: (Inr w1)
      show ?thesis
      proof (cases "timed_read e (slot_addr p i) w1")
        case (Inl x)
        with "1.prems" True ta have "timed_read e (slot_addr p i) w1 = Inl (st, w')"
          by (simp add: table_loop.simps [of e p i w])
        then show ?thesis by (simp add: timed_read_Inl)
      next
        case tr: (Inr y)
        obtain time w2 where y: "y = (time, w2)" by (cases y)
        with "1.prems" True ta tr
        have "table_loop e p (i + 1) (w2\<lparr>out := out w2 @ [(int i, time)]\<rparr>) = Inl (st, w')"
          by (simp add: table_loop.simps [of e p i w])
        with "1.IH" [OF True ta tr y [symmetric]] show ?thesis by blast
      qed
    qed
  qed
qed

lemma slot_addr_above_page_zero: "i < 256 \<Longrightarrow> \<not> slot_addr probe_base i < 0x1000"
proof -
  assume "i < 256"
  then have "i * 4096 < 2 ^ 64" and small: "139637976727568 + i * 4096 < (2 :: nat) ^ 64"
    by simp_all
  then have o: "unat (of_nat (i * 4096) :: 64 word) = i * 4096"
    using unat_of_nat [where ?'a = 64, of "i * 4096"] by simp
  have b: "unat probe_base = 139637976727568" by (simp add: probe_base_def)
  from small o b have "unat probe_base + unat (of_nat (i * 4096) :: 64 word) < 2 ^ LENGTH(64)"
    by simp
  then have "unat (probe_base + of_nat (i * 4096)) =
      unat probe_base + unat (of_nat (i * 4096) :: 64 word)"
    by (simp only: unat_add_lem)
  with o b have "unat (slot_addr probe_base i) = 139637976727568 + i * 4096"
    by (simp add: slot_addr_def)
  then show ?thesis by (simp add: word_less_nat_alt)
qed

lemma mapped_lab: "mapped (lab samples) probe_base"
  by (simp add: mapped_def lab_def lab_env_def slot_addr_above_page_zero)
     (simp add: stack_addr_def)

lemma quiet_lab: "quiet (lab samples)"
  using mapped_lab [of samples]
  by (simp add: quiet_def lab_def lab_env_def probe_base_def stack_addr_def NULL_def)

lemma sample_lab: "sample (lab samples) i = samples i"
proof -
  have "ucast (ucast (samples i) :: 64 word) = samples i"
    by (rule ucast_up_ucast_id) (simp add: is_up)
  then show ?thesis
    by (simp add: sample_def lab_def lab_env_def)
qed

lemma transient_access_B_returns:
  assumes "mapped e p" and "\<exists>k. observe e (nloads w + k) (mem w (secret_addr e)) \<noteq> 0"
  shows "\<exists>evs n. transient_access e tau_B p w = Inr (w\<lparr>trace := trace w @ evs, nloads := n\<rparr>)"
proof -
  define N where "N = (LEAST k. observe e (nloads w + k) (mem w (secret_addr e)) \<noteq> 0)"
  define b where "b = observe e (nloads w + N) (mem w (secret_addr e))"
  from assms(2) have nz: "b \<noteq> 0" unfolding b_def N_def by (rule LeastI_ex)
  have z: "\<forall>i<N. observe e (nloads w + i) (mem w (secret_addr e)) = 0"
    using not_less_Least [of _ "\<lambda>k. observe e (nloads w + k) (mem w (secret_addr e)) \<noteq> 0"]
    unfolding N_def by blast
  from transient_access_B_run [OF assms(1) z b_def [symmetric] nz] show ?thesis by blast
qed

lemma transient_access_A_returns:
  assumes "mapped e p" and "\<exists>k. observe e (nloads w + k) (mem w (secret_addr e)) \<noteq> 0"
  shows "\<exists>evs n. transient_access e tau_A p w = Inr (w\<lparr>trace := trace w @ evs, nloads := n\<rparr>)"
proof -
  define N where "N = (LEAST k. observe e (nloads w + k) (mem w (secret_addr e)) \<noteq> 0)"
  define b where "b = observe e (nloads w + N) (mem w (secret_addr e))"
  from assms(2) have nz: "b \<noteq> 0" unfolding b_def N_def by (rule LeastI_ex)
  have z: "\<forall>i<N. observe e (nloads w + i) (mem w (secret_addr e)) = 0"
    using not_less_Least [of _ "\<lambda>k. observe e (nloads w + k) (mem w (secret_addr e)) \<noteq> 0"]
    unfolding N_def by blast
  from transient_access_A_run [OF assms(1) z b_def [symmetric] nz] show ?thesis by blast
qed

lemma guess_loop_returns:
  "mapped e p \<Longrightarrow> \<forall>n. \<exists>k. observe e (n + k) 0xFF \<noteq> 0 \<Longrightarrow> mem w (secret_addr e) = 0xFF \<Longrightarrow>
     \<exists>lt' lv' w'. guess_loop e p i lt lv w = Inr (lt', lv', w')"
proof (induction e p i lt lv w rule: guess_loop.induct)
  case (1 e p i lt lv w)
  show ?case
  proof (cases "i < 256")
    case False
    then show ?thesis by (simp add: guess_loop.simps [of e p i lt lv w])
  next
    case True
    from "1.prems"(2,3) have "\<exists>k. observe e (nloads w + k) (mem w (secret_addr e)) \<noteq> 0"
      by simp
    with "1.prems"(1) obtain evs n where
      ta: "transient_access e tau_B p w = Inr (w\<lparr>trace := trace w @ evs, nloads := n\<rparr>)"
      using transient_access_B_returns by blast
    let ?w1 = "w\<lparr>trace := trace w @ evs, nloads := n\<rparr>"
    let ?time = "(ucast (tsc e (ntsc ?w1 + 1)) - ucast (tsc e (ntsc ?w1))) :: 32 word"
    let ?w2 = "?w1\<lparr>trace := trace ?w1 @ [TimedLoad (slot_addr p i)], ntsc := ntsc ?w1 + 2\<rparr>"
    have tr: "timed_read e (slot_addr p i) ?w1 = Inr (?time, ?w2)"
      using mapped_slot [OF "1.prems"(1) True] by (rule timed_read_quiet)
    have m2: "mem ?w2 (secret_addr e) = 0xFF" using "1.prems"(3) by simp
    show ?thesis
    proof (cases "?time < lt")
      case lt: True
      have "guess_loop e p i lt lv w = guess_loop e p (i + 1) ?time (int i) ?w2"
        using True ta tr lt by (simp add: guess_loop.simps [of e p i lt lv w])
      with "1.IH"(1) [OF True ta tr refl lt "1.prems"(1,2) m2] show ?thesis
        by (simp only:)
    next
      case ge: False
      have "guess_loop e p i lt lv w = guess_loop e p (i + 1) lt lv ?w2"
        using True ta tr ge by (simp add: guess_loop.simps [of e p i lt lv w])
      with "1.IH"(2) [OF True ta tr refl ge "1.prems"(1,2) m2] show ?thesis
        by (simp only:)
    qed
  qed
qed

lemma table_loop_returns:
  "mapped e p \<Longrightarrow> \<forall>n. \<exists>k. observe e (n + k) 0xFF \<noteq> 0 \<Longrightarrow> mem w (secret_addr e) = 0xFF \<Longrightarrow>
     \<exists>w'. table_loop e p i w = Inr w'"
proof (induction e p i w rule: table_loop.induct)
  case (1 e p i w)
  show ?case
  proof (cases "i < 256")
    case False
    then show ?thesis by (simp add: table_loop.simps [of e p i w])
  next
    case True
    from "1.prems"(2,3) have "\<exists>k. observe e (nloads w + k) (mem w (secret_addr e)) \<noteq> 0"
      by simp
    with "1.prems"(1) obtain evs n where
      ta: "transient_access e tau_A p w = Inr (w\<lparr>trace := trace w @ evs, nloads := n\<rparr>)"
      using transient_access_A_returns by blast
    let ?w1 = "w\<lparr>trace := trace w @ evs, nloads := n\<rparr>"
    let ?time = "(ucast (tsc e (ntsc ?w1 + 1)) - ucast (tsc e (ntsc ?w1))) :: 32 word"
    let ?w2 = "?w1\<lparr>trace := trace ?w1 @ [TimedLoad (slot_addr p i)], ntsc := ntsc ?w1 + 2\<rparr>"
    let ?w3 = "?w2\<lparr>out := out ?w2 @ [(int i, ?time)]\<rparr>"
    have tr: "timed_read e (slot_addr p i) ?w1 = Inr (?time, ?w2)"
      using mapped_slot [OF "1.prems"(1) True] by (rule timed_read_quiet)
    have m3: "mem ?w3 (secret_addr e) = 0xFF" using "1.prems"(3) by simp
    have "table_loop e p i w = table_loop e p (i + 1) ?w3"
      using True ta tr by (simp add: table_loop.simps [of e p i w])
    with "1.IH" [OF True ta tr refl "1.prems"(1,2) m3] show ?thesis
      by (simp only:)
  qed
qed

lemma runnable_fields:
  assumes "runnable e"
  shows "alloc_result e \<noteq> NULL" "mapped e (alloc_result e)"
    "\<forall>n. \<exists>k. observe e (n + k) 0xFF \<noteq> 0" "mem (arena e) (secret_addr e) = 0xFF"
  using assms arena_secret [of e] by (simp_all add: runnable_def)

lemma quiet_runnable: "quiet e \<Longrightarrow> runnable e"
  by (simp add: quiet_def runnable_def)

lemma meltdown_c_runnable:
  assumes "runnable e"
  shows "fst (meltdown_c e) = Exit 0"
proof -
  let ?p = "alloc_result e"
  let ?w3 = "(arena e)\<lparr>trace := trace (arena e) @ map (\<lambda>j. Clflush (slot_addr ?p j)) [0..<256]\<rparr>"
  note r = runnable_fields [OF assms]
  have fl: "flush_loop e ?p 0 (arena e) = Inr ?w3"
    using r(2) by (rule flush_loop_quiet)
  have "mem ?w3 (secret_addr e) = 0xFF" using r(4) by simp
  with r(2,3) obtain lt' lv' w' where "guess_loop e ?p 0 UINT32_MAX (- 1) ?w3 = Inr (lt', lv', w')"
    using guess_loop_returns [of e ?p ?w3 0 UINT32_MAX "- 1"] by blast
  with r(1) fl show ?thesis by (simp add: meltdown_c_unfold)
qed

lemma main_c_runnable:
  assumes "runnable e"
  shows "fst (main_c e) = Exit 0"
proof -
  let ?p = "alloc_result e"
  let ?w3 = "(arena e)\<lparr>trace := trace (arena e) @ map (\<lambda>j. Clflush (slot_addr ?p j)) [0..<256]\<rparr>"
  note r = runnable_fields [OF assms]
  have fl: "flush_loop e ?p 0 (arena e) = Inr ?w3"
    using r(2) by (rule flush_loop_quiet)
  have "mem ?w3 (secret_addr e) = 0xFF" using r(4) by simp
  with r(2,3) obtain w' where "table_loop e ?p 0 ?w3 = Inr w'"
    using table_loop_returns [of e ?p ?w3 0] by blast
  with fl show ?thesis by (simp add: main_c_unfold)
qed

lemma transient_access_Inl_out:
  "transient_access e prog p w = Inl (st, w') \<Longrightarrow> out w' = out w"
  by (auto simp add: transient_access_def Let_def split: option.splits if_splits)

lemma guess_loop_Inl_out:
  "guess_loop e p i lt lv w = Inl (st, w') \<Longrightarrow> out w' = out w"
proof (induction e p i lt lv w rule: guess_loop.induct)
  case (1 e p i lt lv w)
  show ?case
  proof (cases "i < 256")
    case False
    with "1.prems" show ?thesis by (simp add: guess_loop.simps [of e p i lt lv w])
  next
    case True
    show ?thesis
    proof (cases "transient_access e tau_B p w")
      case (Inl x)
      with "1.prems" True have "transient_access e tau_B p w = Inl (st, w')"
        by (simp add: guess_loop.simps [of e p i lt lv w])
      then show ?thesis by (rule transient_access_Inl_out)
    next
      case ta: (Inr w1)
      then have o1: "out w1 = out w" by (simp add: transient_access_ntsc)
      show ?thesis
      proof (cases "timed_read e (slot_addr p i) w1")
        case (Inl x)
        with "1.prems" True ta have "timed_read e (slot_addr p i) w1 = Inl (st, w')"
          by (simp add: guess_loop.simps [of e p i lt lv w])
        with o1 show ?thesis by (auto dest: timed_read_Inl)
      next
        case tr: (Inr y)
        obtain time w2 where y: "y = (time, w2)" by (cases y)
        from tr y have o2: "out w2 = out w1" by (auto dest: timed_read_Inr)
        show ?thesis
        proof (cases "time < lt")
          case lt: True
          with "1.prems" True ta tr y
          have "guess_loop e p (i + 1) time (int i) w2 = Inl (st, w')"
            by (simp add: guess_loop.simps [of e p i lt lv w])
          with "1.IH"(1) [OF True ta tr y [symmetric] lt] o1 o2 show ?thesis by simp
        next
          case ge: False
          with "1.prems" True ta tr y
          have "guess_loop e p (i + 1) lt lv w2 = Inl (st, w')"
            by (simp add: guess_loop.simps [of e p i lt lv w])
          with "1.IH"(2) [OF True ta tr y [symmetric] ge] o1 o2 show ?thesis by simp
        qed
      qed
    qed
  qed
qed

lemma meltdown_c_no_report:
  assumes "fst (meltdown_c e) \<noteq> Exit 0"
  shows "out (snd (meltdown_c e)) = []"
proof (cases "alloc_result e = NULL")
  case True
  then show ?thesis by (simp add: meltdown_c_unfold arena_fields)
next
  case nn: False
  show ?thesis
  proof (cases "flush_loop e (alloc_result e) 0 (arena e)")
    case (Inl x)
    obtain st w' where x: "x = (st, w')" by (cases x)
    with Inl have "out w' = []" by (auto dest!: flush_loop_Inl simp add: arena_fields)
    with Inl x nn show ?thesis by (simp add: meltdown_c_unfold)
  next
    case fl: (Inr w3)
    then have o3: "out w3 = []" by (auto dest!: flush_loop_Inr simp add: arena_fields)
    show ?thesis
    proof (cases "guess_loop e (alloc_result e) 0 UINT32_MAX (- 1) w3")
      case (Inl x)
      obtain st w' where x: "x = (st, w')" by (cases x)
      with Inl have "out w' = out w3" using guess_loop_Inl_out by blast
      with Inl x fl nn o3 show ?thesis by (simp add: meltdown_c_unfold)
    next
      case (Inr y)
      obtain lt lv w4 where "y = (lt, lv, w4)" by (cases y)
      with Inr fl nn assms show ?thesis by (simp add: meltdown_c_unfold)
    qed
  qed
qed

lemma timing_table_lab: "length tbl = 256 \<Longrightarrow> timing_table (lab ((!) tbl)) = tbl"
proof -
  assume l: "length tbl = 256"
  have "sample (lab ((!) tbl)) = (!) tbl" by (rule ext) (rule sample_lab)
  then have "timing_table (lab ((!) tbl)) = map ((!) tbl) [0..<length tbl]"
    by (simp add: timing_table_def l)
  then show ?thesis by (simp only: map_nth)
qed

section \<open>The decoder of \<^verbatim>\<open>meltdown.c\<close>\<close>

lemma flat_table: "timing_table (lab flat_samples) = replicate 256 UINT32_MAX"
proof -
  have "sample (lab flat_samples) = (\<lambda>i. UINT32_MAX)"
    by (rule ext) (simp add: sample_lab flat_samples_def)
  then show ?thesis
    by (simp add: timing_table_def map_replicate_const)
qed

lemma flat_out:
  "out (snd (meltdown_c (lab flat_samples))) = [(- 1, UINT32_MAX)]"
proof -
  have "running_min (sample (lab flat_samples)) [0..<256] (UINT32_MAX, - 1) = (UINT32_MAX, - 1)"
    by (rule running_min_keeps) (simp add: sample_lab flat_samples_def)
  then show ?thesis
    using meltdown_c_out [OF meltdown_c_quiet(1) [OF quiet_lab], of flat_samples] by simp
qed

text \<open>
  C1, as amended. In a runnable environment \<^verbatim>\<open>meltdown.c\<close> runs to its \<^verbatim>\<open>return 0\<close>
  and prints one pair: the lowest slot index \<open>k\<close> whose sample is the minimum of the
  256-entry timing table, with that sample. The comparison is strict, so among equal
  samples the first one scanned wins. This holds whenever the minimum is below
  \<^verbatim>\<open>UINT32_MAX\<close>, and in particular whenever slot \<open>k\<close> holds the minimum alone (slot
  \<open>k\<close> at 40 and all others at 400, say). Outside a runnable environment the program
  either ends the same way with the same pair, or prints no pair at all. Every list of
  256 samples is the timing table of some runnable environment.
\<close>

theorem single_guess_reports_first_minimum:
  assumes "k < 256"
    and "\<forall>j<256. timing_table e ! k \<le> timing_table e ! j"
    and "\<forall>j<k. timing_table e ! k < timing_table e ! j"
    and "timing_table e ! k < UINT32_MAX \<or>
         (\<forall>j<256. j \<noteq> k \<longrightarrow> timing_table e ! k < timing_table e ! j)"
  shows "(runnable e \<longrightarrow>
            fst (meltdown_c e) = Exit 0 \<and>
            out (snd (meltdown_c e)) = [(int k, timing_table e ! k)]) \<and>
         (fst (meltdown_c e) = Exit 0 \<longrightarrow>
            out (snd (meltdown_c e)) = [(int k, timing_table e ! k)]) \<and>
         (fst (meltdown_c e) \<noteq> Exit 0 \<longrightarrow> out (snd (meltdown_c e)) = []) \<and>
         (length tbl = 256 \<longrightarrow>
            runnable (lab ((!) tbl)) \<and> timing_table (lab ((!) tbl)) = tbl)"
proof -
  have below: "sample e k < UINT32_MAX"
  proof (cases "timing_table e ! k < UINT32_MAX")
    case True
    with assms(1) show ?thesis by (simp add: timing_table_nth)
  next
    case False
    define j :: nat where "j = (if k = 0 then 1 else 0)"
    then have j: "j < 256" "j \<noteq> k" by auto
    with False assms(4) have "timing_table e ! k < timing_table e ! j" by blast
    with j(1) assms(1) have "sample e k < sample e j" by (simp add: timing_table_nth)
    moreover have "sample e j < UINT32_MAX \<or> sample e j = UINT32_MAX"
      using below_UINT32_MAX [of "sample e j"] by blast
    ultimately show ?thesis by auto
  qed
  have le: "\<forall>j<256. sample e k \<le> sample e j"
    using assms(1,2) by (simp add: timing_table_nth)
  have lt: "\<forall>j<k. sample e k < sample e j"
    using assms(1,3) by (simp add: timing_table_nth)
  have rm: "running_min (sample e) [0..<256] (UINT32_MAX, - 1) = (sample e k, int k)"
    using assms(1) below lt le by (rule running_min_first)
  have ret: "out (snd (meltdown_c e)) = [(int k, timing_table e ! k)]"
    if "fst (meltdown_c e) = Exit 0"
    using meltdown_c_out [OF that] rm assms(1) by (simp add: timing_table_nth)
  have run: "fst (meltdown_c e) = Exit 0" if "runnable e"
    using that by (rule meltdown_c_runnable)
  have none: "out (snd (meltdown_c e)) = []" if "fst (meltdown_c e) \<noteq> Exit 0"
    using that by (rule meltdown_c_no_report)
  have every: "runnable (lab ((!) tbl)) \<and> timing_table (lab ((!) tbl)) = tbl"
    if "length tbl = 256"
    using that quiet_runnable [OF quiet_lab, of "(!) tbl"] by (simp add: timing_table_lab)
  from ret run none every show ?thesis by blast
qed

theorem single_guess_reports_first_minimum_witness:
  "fst (meltdown_c (lab (peak_samples 65))) = Exit 0 \<and>
   out (snd (meltdown_c (lab (peak_samples 65)))) = [(65, 40)] \<and>
   fst (meltdown_c (lab (tie_samples 7 9))) = Exit 0 \<and>
   out (snd (meltdown_c (lab (tie_samples 7 9)))) = [(7, 40)]"
proof -
  have r1: "runnable (lab (peak_samples 65))" and r2: "runnable (lab (tie_samples 7 9))"
    by (rule quiet_runnable, rule quiet_lab)+
  have "(runnable (lab (peak_samples 65)) \<longrightarrow>
            fst (meltdown_c (lab (peak_samples 65))) = Exit 0 \<and>
            out (snd (meltdown_c (lab (peak_samples 65)))) =
              [(int 65, timing_table (lab (peak_samples 65)) ! 65)])"
    by (rule single_guess_reports_first_minimum [THEN conjunct1])
       (simp_all add: timing_table_nth sample_lab peak_samples_def UINT32_MAX_def)
  with r1 have one: "fst (meltdown_c (lab (peak_samples 65))) = Exit 0 \<and>
            out (snd (meltdown_c (lab (peak_samples 65)))) =
              [(int 65, timing_table (lab (peak_samples 65)) ! 65)]"
    by (rule rev_mp)
  have "(runnable (lab (tie_samples 7 9)) \<longrightarrow>
            fst (meltdown_c (lab (tie_samples 7 9))) = Exit 0 \<and>
            out (snd (meltdown_c (lab (tie_samples 7 9)))) =
              [(int 7, timing_table (lab (tie_samples 7 9)) ! 7)])"
    by (rule single_guess_reports_first_minimum [THEN conjunct1])
       (simp_all add: timing_table_nth sample_lab tie_samples_def UINT32_MAX_def)
  with r2 have two: "fst (meltdown_c (lab (tie_samples 7 9))) = Exit 0 \<and>
            out (snd (meltdown_c (lab (tie_samples 7 9)))) =
              [(int 7, timing_table (lab (tie_samples 7 9)) ! 7)]"
    by (rule rev_mp)
  from one two show ?thesis
    by (simp add: timing_table_nth sample_lab peak_samples_def tie_samples_def)
qed

text \<open>
  The claim as stated fails on a table whose entries are all \<^verbatim>\<open>UINT32_MAX\<close>: every
  slot shares the global minimum, and the program prints the initial \<open>-1\<close>, not slot 0.
\<close>

theorem single_guess_tie_counterexample:
  "timing_table (lab flat_samples) = replicate 256 UINT32_MAX \<and>
   fst (meltdown_c (lab flat_samples)) = Exit 0 \<and>
   out (snd (meltdown_c (lab flat_samples))) = [(- 1, UINT32_MAX)] \<and>
   out (snd (meltdown_c (lab flat_samples))) \<noteq> [(0, timing_table (lab flat_samples) ! 0)]"
  using flat_table flat_out meltdown_c_quiet(1) [OF quiet_lab, of flat_samples]
  by simp

text \<open>
  C10. In a runnable environment \<^verbatim>\<open>meltdown.c\<close> runs to its \<^verbatim>\<open>return 0\<close> and prints
  one pair; the printed index lies in 0..255 exactly when some sample of the timing table
  is below \<^verbatim>\<open>UINT32_MAX\<close>; when every sample equals \<^verbatim>\<open>UINT32_MAX\<close> the strict
  comparison never succeeds and the program prints the initial values, index \<open>-1\<close> with
  time \<^verbatim>\<open>UINT32_MAX\<close>. In any environment a run that returns 0 has printed such a pair,
  and a run that ends otherwise has printed none.
\<close>

theorem sentinel_unless_some_sample_below_max:
  "(runnable e \<longrightarrow>
      (\<exists>lowestVal lowestTime.
         fst (meltdown_c e) = Exit 0 \<and>
         out (snd (meltdown_c e)) = [(lowestVal, lowestTime)] \<and>
         ((0 \<le> lowestVal \<and> lowestVal \<le> 255) \<longleftrightarrow> (\<exists>i<256. timing_table e ! i < UINT32_MAX)) \<and>
         ((\<forall>i<256. timing_table e ! i = UINT32_MAX) \<longrightarrow>
            lowestVal = - 1 \<and> lowestTime = UINT32_MAX))) \<and>
   (fst (meltdown_c e) = Exit 0 \<longrightarrow>
      (\<exists>lowestVal lowestTime.
         out (snd (meltdown_c e)) = [(lowestVal, lowestTime)] \<and>
         ((0 \<le> lowestVal \<and> lowestVal \<le> 255) \<longleftrightarrow> (\<exists>i<256. timing_table e ! i < UINT32_MAX)) \<and>
         ((\<forall>i<256. timing_table e ! i = UINT32_MAX) \<longrightarrow>
            lowestVal = - 1 \<and> lowestTime = UINT32_MAX))) \<and>
   (fst (meltdown_c e) \<noteq> Exit 0 \<longrightarrow> out (snd (meltdown_c e)) = [])"
proof -
  obtain lt lv where rm: "running_min (sample e) [0..<256] (UINT32_MAX, - 1) = (lt, lv)"
    by (cases "running_min (sample e) [0..<256] (UINT32_MAX, - 1)")
  from running_min_index [OF rm]
  consider (none) "lv = - 1" "lt = UINT32_MAX" "\<forall>j<256. \<not> sample e j < UINT32_MAX"
    | (some) j where "j < 256" "lv = int j" "lt = sample e j" "sample e j < UINT32_MAX"
    by auto
  then have dec: "((0 \<le> lv \<and> lv \<le> 255) \<longleftrightarrow> (\<exists>i<256. timing_table e ! i < UINT32_MAX)) \<and>
     ((\<forall>i<256. timing_table e ! i = UINT32_MAX) \<longrightarrow> lv = - 1 \<and> lt = UINT32_MAX)"
  proof cases
    case none
    then show ?thesis by (auto simp add: timing_table_nth)
  next
    case some
    then have "timing_table e ! j < UINT32_MAX" by (simp add: timing_table_nth)
    with some show ?thesis by auto
  qed
  have ret: "out (snd (meltdown_c e)) = [(lv, lt)]" if "fst (meltdown_c e) = Exit 0"
    using meltdown_c_out [OF that] rm by simp
  have run: "fst (meltdown_c e) = Exit 0" if "runnable e"
    using that by (rule meltdown_c_runnable)
  have none: "out (snd (meltdown_c e)) = []" if "fst (meltdown_c e) \<noteq> Exit 0"
    using that by (rule meltdown_c_no_report)
  show ?thesis
  proof (intro conjI impI)
    assume "runnable e"
    then have x: "fst (meltdown_c e) = Exit 0" by (rule run)
    with ret dec show "\<exists>lowestVal lowestTime.
         fst (meltdown_c e) = Exit 0 \<and>
         out (snd (meltdown_c e)) = [(lowestVal, lowestTime)] \<and>
         ((0 \<le> lowestVal \<and> lowestVal \<le> 255) \<longleftrightarrow> (\<exists>i<256. timing_table e ! i < UINT32_MAX)) \<and>
         ((\<forall>i<256. timing_table e ! i = UINT32_MAX) \<longrightarrow>
            lowestVal = - 1 \<and> lowestTime = UINT32_MAX)"
      by blast
  next
    assume "fst (meltdown_c e) = Exit 0"
    with ret dec show "\<exists>lowestVal lowestTime.
         out (snd (meltdown_c e)) = [(lowestVal, lowestTime)] \<and>
         ((0 \<le> lowestVal \<and> lowestVal \<le> 255) \<longleftrightarrow> (\<exists>i<256. timing_table e ! i < UINT32_MAX)) \<and>
         ((\<forall>i<256. timing_table e ! i = UINT32_MAX) \<longrightarrow>
            lowestVal = - 1 \<and> lowestTime = UINT32_MAX)"
      by blast
  next
    assume "fst (meltdown_c e) \<noteq> Exit 0"
    then show "out (snd (meltdown_c e)) = []" by (rule none)
  qed
qed

theorem sentinel_unless_some_sample_below_max_witness:
  "fst (meltdown_c (lab flat_samples)) = Exit 0 \<and>
   out (snd (meltdown_c (lab flat_samples))) = [(- 1, UINT32_MAX)] \<and>
   (\<exists>lowestVal lowestTime.
      fst (meltdown_c (lab (peak_samples 3))) = Exit 0 \<and>
      out (snd (meltdown_c (lab (peak_samples 3)))) = [(lowestVal, lowestTime)] \<and>
      0 \<le> lowestVal \<and> lowestVal \<le> 255)"
proof -
  have r1: "runnable (lab flat_samples)" and r2: "runnable (lab (peak_samples 3))"
    by (rule quiet_runnable, rule quiet_lab)+
  have flat: "\<forall>i<256. timing_table (lab flat_samples) ! i = UINT32_MAX"
    by (simp add: flat_table)
  from sentinel_unless_some_sample_below_max [of "lab flat_samples", THEN conjunct1] r1 flat
  have one: "fst (meltdown_c (lab flat_samples)) = Exit 0 \<and>
      out (snd (meltdown_c (lab flat_samples))) = [(- 1, UINT32_MAX)]"
    by auto
  have "timing_table (lab (peak_samples 3)) ! 3 < UINT32_MAX"
    by (simp add: timing_table_nth sample_lab peak_samples_def UINT32_MAX_def)
  then have peak: "\<exists>i<256. timing_table (lab (peak_samples 3)) ! i < UINT32_MAX"
    by (intro exI [of _ 3]) simp
  from sentinel_unless_some_sample_below_max [of "lab (peak_samples 3)", THEN conjunct1] r2 peak
  have two: "\<exists>lowestVal lowestTime.
      fst (meltdown_c (lab (peak_samples 3))) = Exit 0 \<and>
      out (snd (meltdown_c (lab (peak_samples 3)))) = [(lowestVal, lowestTime)] \<and>
      0 \<le> lowestVal \<and> lowestVal \<le> 255"
    by blast
  from one two show ?thesis by simp
qed

section \<open>The transient access unit\<close>

lemma shl12_zero_iff: "push_bit 12 (ucast (b::8 word) :: 64 word) = 0 \<longleftrightarrow> b = 0"
  using shl12_nz [of b] by auto

lemma slot_addr_inj:
  assumes "i < 256" "j < 256" "slot_addr p i = slot_addr p j"
  shows "i = j"
proof -
  from assms(3) have "(of_nat (i * 4096) :: 64 word) = of_nat (j * 4096)"
    by (simp add: slot_addr_def)
  then have "take_bit 64 (i * 4096) = take_bit 64 (j * 4096)"
    using word_of_nat_eq_iff [where ?'a = 64, of "i * 4096" "j * 4096"] by simp
  moreover from assms(1) have "i * 4096 < 2 ^ 64" by simp
  moreover from assms(2) have "j * 4096 < 2 ^ 64" by simp
  ultimately have "i * 4096 = j * 4096"
    by (simp add: take_bit_nat_eq_self)
  then show ?thesis by simp
qed

lemma leave_A_fault_probe:
  assumes "\<not> faults e c" and "observe e r (m c) = b" and "b \<noteq> 0"
    and "faults e (p + push_bit 12 (ucast b))"
  shows "run e m tau_A \<lparr>pc = 3, rax = 0, rbx = p, rcx = c, zf = True, txn = None,
                         reads = r, events = ev, killed = False\<rparr> =
         Some \<lparr>pc = 7, rax = push_bit 12 (ucast b), rbx = p, rcx = c, zf = False, txn = None,
               reads = Suc r,
               events = ev @ [ByteLoad c, IndexedLoad (p + push_bit 12 (ucast b))],
               killed = True\<rparr>"
  by (rule run_fuel_halt [where n = "Suc (Suc (Suc (Suc (Suc 0))))"])
     (use assms shl12_nz [of b] in \<open>simp_all add: tau_A_nth Let_def raise_fault_def\<close>)

lemma tau_A_run_fault_probe:
  assumes "\<not> faults e (secret_addr e)"
    and "\<forall>i<N. observe e (nloads w + i) (m (secret_addr e)) = 0"
    and "observe e (nloads w + N) (m (secret_addr e)) = b" and "b \<noteq> 0"
    and "faults e (p + push_bit 12 (ucast b))"
  shows "\<exists>s. run e m tau_A (asm_entry e p w) = Some s"
proof -
  have "run e m tau_A (asm_entry e p w) =
      run e m tau_A \<lparr>pc = 3, rax = 0, rbx = p, rcx = secret_addr e, zf = True, txn = None,
                     reads = nloads w, events = [], killed = False\<rparr>"
    by (rule enter_A)
  also have "\<dots> = run e m tau_A \<lparr>pc = 3, rax = 0, rbx = p, rcx = secret_addr e, zf = True,
       txn = None, reads = nloads w + N,
       events = [] @ replicate N (ByteLoad (secret_addr e)), killed = False\<rparr>"
    using assms(1,2) by (rule spin_A)
  also have "\<dots> = Some \<lparr>pc = 7, rax = push_bit 12 (ucast b), rbx = p,
       rcx = secret_addr e, zf = False, txn = None, reads = Suc (nloads w + N),
       events = ([] @ replicate N (ByteLoad (secret_addr e))) @
                [ByteLoad (secret_addr e), IndexedLoad (p + push_bit 12 (ucast b))],
       killed = True\<rparr>"
    using assms(1,3,4,5) by (rule leave_A_fault_probe)
  finally show ?thesis by blast
qed

lemma tau_B_run_fault_secret:
  assumes "faults e (secret_addr e)"
  shows "run e m tau_B (asm_entry e p w) =
     Some \<lparr>pc = 11, rax = ucast (abort_status e), rbx = p, rcx = secret_addr e, zf = True,
           txn = None, reads = Suc (nloads w),
           events = [TxBegin, ByteLoad (secret_addr e), TxAbort], killed = False\<rparr>"
proof -
  have "run e m tau_B (asm_entry e p w) =
      run e m tau_B \<lparr>pc = 4, rax = 0, rbx = p, rcx = secret_addr e, zf = True,
                     txn = Some (10, p, True),
                     reads = nloads w, events = [TxBegin], killed = False\<rparr>"
    by (rule enter_B)
  also have "\<dots> = Some \<lparr>pc = 11, rax = ucast (abort_status e), rbx = p, rcx = secret_addr e,
       zf = True, txn = None, reads = Suc (nloads w),
       events = [TxBegin] @ [ByteLoad (secret_addr e), TxAbort], killed = False\<rparr>"
    using assms by (rule leave_B_fault_secret)
  finally show ?thesis by simp
qed

lemma tau_B_run_fault_probe:
  assumes "\<not> faults e (secret_addr e)"
    and "\<forall>i<N. observe e (nloads w + i) (m (secret_addr e)) = 0"
    and "observe e (nloads w + N) (m (secret_addr e)) = b" and "b \<noteq> 0"
    and "faults e (p + push_bit 12 (ucast b))"
  shows "run e m tau_B (asm_entry e p w) =
     Some \<lparr>pc = 11, rax = ucast (abort_status e), rbx = p, rcx = secret_addr e, zf = True,
           txn = None, reads = Suc (nloads w + N),
           events = TxBegin # replicate (Suc N) (ByteLoad (secret_addr e)) @
                    [IndexedLoad (p + push_bit 12 (ucast b)), TxAbort],
           killed = False\<rparr>"
proof -
  have "run e m tau_B (asm_entry e p w) =
      run e m tau_B \<lparr>pc = 4, rax = 0, rbx = p, rcx = secret_addr e, zf = True,
                     txn = Some (10, p, True),
                     reads = nloads w, events = [TxBegin], killed = False\<rparr>"
    by (rule enter_B)
  also have "\<dots> = run e m tau_B \<lparr>pc = 4, rax = 0, rbx = p, rcx = secret_addr e, zf = True,
       txn = Some (10, p, True), reads = nloads w + N,
       events = [TxBegin] @ replicate N (ByteLoad (secret_addr e)), killed = False\<rparr>"
    using assms(1,2) by (rule spin_B)
  also have "\<dots> = Some \<lparr>pc = 11, rax = ucast (abort_status e), rbx = p,
       rcx = secret_addr e, zf = True, txn = None, reads = Suc (nloads w + N),
       events = ([TxBegin] @ replicate N (ByteLoad (secret_addr e))) @
                [ByteLoad (secret_addr e), IndexedLoad (p + push_bit 12 (ucast b)), TxAbort],
       killed = False\<rparr>"
    using assms(1,3,4,5) by (rule leave_B_fault_probe)
  finally show ?thesis by (simp add: replicate_append_same)
qed

lemma tau_B_nth_Suc:
  "tau_B ! Suc (Suc (Suc (Suc 0))) = Label ''retry''"
  "tau_B ! Suc (Suc (Suc (Suc (Suc 0)))) = Mov_al_byte_rcx"
  by (simp_all add: tau_B_def)

lemma abort_lands_on_skip:
  assumes "faults e (secret_addr e)"
  shows "exec_n e m tau_B (Suc (Suc (Suc (Suc (Suc (Suc 0)))))) (asm_entry e p w) =
     \<lparr>pc = label_pos tau_B ''skip'', rax = ucast (abort_status e), rbx = p,
      rcx = secret_addr e, zf = True, txn = None, reads = Suc (nloads w),
      events = [TxBegin, ByteLoad (secret_addr e), TxAbort], killed = False\<rparr>"
  using assms by (simp add: asm_entry_def tau_B_nth tau_B_nth_Suc Let_def raise_fault_def)

text \<open>
  C5. Strategy A (\<^verbatim>\<open>main.c\<close>): when the shifted value is zero on the first \<open>N\<close>
  executions of the read-and-shift pair and nonzero on the next one, the block reads the
  secret \<open>N + 1\<close> times (it branches back to \<^verbatim>\<open>retry\<close> exactly \<open>N\<close> times), then
  performs the indexed load and leaves the block. If some execution produces a nonzero
  shifted value, the run of the block ends.
\<close>

theorem retry_loop_retries_exactly_N_times:
  assumes "\<not> faults e (secret_addr e)"
  shows "((\<forall>i<N. push_bit 12 (ucast (observe e (nloads w + i) (m (secret_addr e))) :: 64 word) = 0) \<and>
          push_bit 12 (ucast (observe e (nloads w + N) (m (secret_addr e))) :: 64 word) = x \<and>
          x \<noteq> 0 \<and> \<not> faults e (p + x) \<longrightarrow>
          (\<exists>s. run e m tau_A (asm_entry e p w) = Some s \<and> \<not> killed s \<and>
               pc s = length tau_A \<and> reads s = nloads w + N + 1 \<and>
               events s = replicate (N + 1) (ByteLoad (secret_addr e)) @ [IndexedLoad (p + x)])) \<and>
         ((\<exists>n. push_bit 12 (ucast (observe e (nloads w + n) (m (secret_addr e))) :: 64 word) \<noteq> 0) \<longrightarrow>
          (\<exists>s. run e m tau_A (asm_entry e p w) = Some s))"
proof (intro conjI impI)
  assume h: "(\<forall>i<N. push_bit 12 (ucast (observe e (nloads w + i) (m (secret_addr e))) :: 64 word) = 0) \<and>
          push_bit 12 (ucast (observe e (nloads w + N) (m (secret_addr e))) :: 64 word) = x \<and>
          x \<noteq> 0 \<and> \<not> faults e (p + x)"
  define b where "b = observe e (nloads w + N) (m (secret_addr e))"
  from h have z: "\<forall>i<N. observe e (nloads w + i) (m (secret_addr e)) = 0"
    by (simp add: shl12_zero_iff)
  from h have x: "x = push_bit 12 (ucast b)" by (simp add: b_def)
  with h have nz: "b \<noteq> 0" by (auto simp add: shl12_zero_iff)
  from h x have nf: "\<not> faults e (p + push_bit 12 (ucast b))" by simp
  have "run e m tau_A (asm_entry e p w) =
     Some \<lparr>pc = 8, rax = push_bit 12 (ucast b), rbx = load_qword m (p + push_bit 12 (ucast b)),
           rcx = secret_addr e, zf = False, txn = None, reads = Suc (nloads w + N),
           events = replicate (Suc N) (ByteLoad (secret_addr e)) @
                    [IndexedLoad (p + push_bit 12 (ucast b))],
           killed = False\<rparr>"
    using assms z b_def [symmetric] nz nf by (rule tau_A_run)
  then show "\<exists>s. run e m tau_A (asm_entry e p w) = Some s \<and> \<not> killed s \<and>
               pc s = length tau_A \<and> reads s = nloads w + N + 1 \<and>
               events s = replicate (N + 1) (ByteLoad (secret_addr e)) @ [IndexedLoad (p + x)]"
    by (simp add: x tau_A_nth)
next
  assume "\<exists>n. push_bit 12 (ucast (observe e (nloads w + n) (m (secret_addr e))) :: 64 word) \<noteq> 0"
  then have ex: "\<exists>n. observe e (nloads w + n) (m (secret_addr e)) \<noteq> 0"
    by (simp add: shl12_zero_iff)
  define n where "n = (LEAST n. observe e (nloads w + n) (m (secret_addr e)) \<noteq> 0)"
  define b where "b = observe e (nloads w + n) (m (secret_addr e))"
  from ex have nz: "b \<noteq> 0" unfolding b_def n_def by (rule LeastI_ex)
  have z: "\<forall>i<n. observe e (nloads w + i) (m (secret_addr e)) = 0"
    using not_less_Least [of _ "\<lambda>n. observe e (nloads w + n) (m (secret_addr e)) \<noteq> 0"]
    unfolding n_def by blast
  show "\<exists>s. run e m tau_A (asm_entry e p w) = Some s"
  proof (cases "faults e (p + push_bit 12 (ucast b))")
    case True
    with assms z b_def [symmetric] nz show ?thesis by (rule tau_A_run_fault_probe)
  next
    case False
    have "run e m tau_A (asm_entry e p w) =
     Some \<lparr>pc = 8, rax = push_bit 12 (ucast b), rbx = load_qword m (p + push_bit 12 (ucast b)),
           rcx = secret_addr e, zf = False, txn = None, reads = Suc (nloads w + n),
           events = replicate (Suc n) (ByteLoad (secret_addr e)) @
                    [IndexedLoad (p + push_bit 12 (ucast b))],
           killed = False\<rparr>"
      using assms z b_def [symmetric] nz False by (rule tau_A_run)
    then show ?thesis by blast
  qed
qed

theorem retry_loop_retries_exactly_N_times_witness:
  "\<exists>s. run (lab flat_samples\<lparr>observe := (\<lambda>n v. if n < 3 then 0 else v)\<rparr>)
          ((\<lambda>a. 0)(stack_addr := 0x41)) tau_A
          (asm_entry (lab flat_samples\<lparr>observe := (\<lambda>n v. if n < 3 then 0 else v)\<rparr>) probe_base
             (init_world (lab flat_samples))) = Some s \<and>
       \<not> killed s \<and> pc s = 8 \<and> reads s = 4 \<and>
       events s = replicate 4 (ByteLoad stack_addr) @ [IndexedLoad (probe_base + 0x41000)]"
proof -
  let ?e = "lab flat_samples\<lparr>observe := (\<lambda>n v. if n < 3 then 0 else v)\<rparr>"
  let ?m = "(\<lambda>a. 0)(stack_addr := 0x41) :: memory"
  let ?w = "init_world (lab flat_samples)"
  have nf: "\<not> faults ?e (secret_addr ?e)" by (simp add: lab_def lab_env_def stack_addr_def)
  have sa: "secret_addr ?e = stack_addr" and n0: "nloads ?w = 0"
    by (simp_all add: lab_def lab_env_def init_world_def)
  have h: "(\<forall>i<3. push_bit 12 (ucast (observe ?e (nloads ?w + i) (?m (secret_addr ?e))) :: 64 word) = 0) \<and>
          push_bit 12 (ucast (observe ?e (nloads ?w + 3) (?m (secret_addr ?e))) :: 64 word) = 0x41000 \<and>
          (0x41000 :: 64 word) \<noteq> 0 \<and> \<not> faults ?e (probe_base + 0x41000)"
    by (simp add: sa n0) (simp add: lab_def lab_env_def probe_base_def)
  from retry_loop_retries_exactly_N_times [OF nf, of 3 ?w ?m "0x41000" probe_base] h
  have "\<exists>s. run ?e ?m tau_A (asm_entry ?e probe_base ?w) = Some s \<and> \<not> killed s \<and>
               pc s = length tau_A \<and> reads s = nloads ?w + 3 + 1 \<and>
               events s = replicate (3 + 1) (ByteLoad (secret_addr ?e)) @
                          [IndexedLoad (probe_base + 0x41000)]"
    by blast
  then show ?thesis by (simp only: sa n0 tau_A_nth) simp
qed

lemma transient_access_Some:
  "run e (mem w) prog (asm_entry e p w) = Some s \<Longrightarrow> \<not> killed s \<Longrightarrow>
     transient_access e prog p w = Inr (w\<lparr>trace := trace w @ events s, nloads := reads s\<rparr>)"
  by (simp add: transient_access_def)

text \<open>
  C6. Strategy B (\<^verbatim>\<open>meltdown.c\<close>), with a fault inside a transaction modelled as an
  abort to the fallback address of \<^verbatim>\<open>xbegin\<close>. If the read of the secret faults, or
  the indexed load does, the transaction aborts, execution continues at the label
  \<^verbatim>\<open>skip\<close>, no fault reaches the process and the measuring loop goes on with its timing
  block. If nothing faults, \<^verbatim>\<open>xend\<close> is the instruction right after the indexed
  load and ends the transaction. In all three cases the block is left at the same
  point, its end, which is where \<^verbatim>\<open>skip\<close> leads.
\<close>

theorem transaction_contains_faults:
  "(faults e (secret_addr e) \<longrightarrow>
      pc (exec_n e (mem w) tau_B 6 (asm_entry e p w)) = label_pos tau_B ''skip'' \<and>
      (\<exists>s. run e (mem w) tau_B (asm_entry e p w) = Some s \<and> \<not> killed s \<and>
           pc s = length tau_B \<and> txn s = None \<and>
           events s = [TxBegin, ByteLoad (secret_addr e), TxAbort] \<and>
           reads s = Suc (nloads w) \<and>
           transient_access e tau_B p w =
             Inr (w\<lparr>trace := trace w @ events s, nloads := reads s\<rparr>))) \<and>
   (\<not> faults e (secret_addr e) \<and>
    (\<forall>i<N. observe e (nloads w + i) (mem w (secret_addr e)) = 0) \<and>
    observe e (nloads w + N) (mem w (secret_addr e)) = b \<and> b \<noteq> 0 \<and>
    faults e (p + push_bit 12 (ucast b)) \<longrightarrow>
      (\<exists>s. run e (mem w) tau_B (asm_entry e p w) = Some s \<and> \<not> killed s \<and>
           pc s = length tau_B \<and> txn s = None \<and>
           events s = TxBegin # replicate (Suc N) (ByteLoad (secret_addr e)) @
                      [IndexedLoad (p + push_bit 12 (ucast b)), TxAbort] \<and>
           reads s = Suc (nloads w + N) \<and>
           transient_access e tau_B p w =
             Inr (w\<lparr>trace := trace w @ events s, nloads := reads s\<rparr>))) \<and>
   (\<not> faults e (secret_addr e) \<and>
    (\<forall>i<N. observe e (nloads w + i) (mem w (secret_addr e)) = 0) \<and>
    observe e (nloads w + N) (mem w (secret_addr e)) = b \<and> b \<noteq> 0 \<and>
    \<not> faults e (p + push_bit 12 (ucast b)) \<longrightarrow>
      (\<exists>s. run e (mem w) tau_B (asm_entry e p w) = Some s \<and> \<not> killed s \<and>
           pc s = length tau_B \<and> txn s = None \<and>
           events s = TxBegin # replicate (Suc N) (ByteLoad (secret_addr e)) @
                      [IndexedLoad (p + push_bit 12 (ucast b)), TxEnd] \<and>
           reads s = Suc (nloads w + N) \<and>
           transient_access e tau_B p w =
             Inr (w\<lparr>trace := trace w @ events s, nloads := reads s\<rparr>))) \<and>
   tau_B ! 3 = Xbegin ''skip'' \<and> tau_B ! 8 = Mov_rbx_qword_rbx_rax \<and> tau_B ! 9 = Xend \<and>
   tau_B ! 10 = Label ''skip'' \<and> Suc (label_pos tau_B ''skip'') = length tau_B"
proof (intro conjI impI)
  assume f: "faults e (secret_addr e)"
  have six: "(6::nat) = Suc (Suc (Suc (Suc (Suc (Suc 0)))))" by simp
  show "pc (exec_n e (mem w) tau_B 6 (asm_entry e p w)) = label_pos tau_B ''skip''"
    unfolding six by (simp only: abort_lands_on_skip [OF f]) simp
  let ?s = "\<lparr>pc = 11, rax = ucast (abort_status e), rbx = p, rcx = secret_addr e, zf = True,
           txn = None, reads = Suc (nloads w),
           events = [TxBegin, ByteLoad (secret_addr e), TxAbort], killed = False\<rparr>"
  have r: "run e (mem w) tau_B (asm_entry e p w) = Some ?s"
    using f by (rule tau_B_run_fault_secret)
  then have "transient_access e tau_B p w =
      Inr (w\<lparr>trace := trace w @ events ?s, nloads := reads ?s\<rparr>)"
    by (rule transient_access_Some) simp
  with r show "\<exists>s. run e (mem w) tau_B (asm_entry e p w) = Some s \<and> \<not> killed s \<and>
           pc s = length tau_B \<and> txn s = None \<and>
           events s = [TxBegin, ByteLoad (secret_addr e), TxAbort] \<and>
           reads s = Suc (nloads w) \<and>
           transient_access e tau_B p w =
             Inr (w\<lparr>trace := trace w @ events s, nloads := reads s\<rparr>)"
    by (intro exI [of _ ?s]) (simp add: tau_B_nth)
next
  assume h: "\<not> faults e (secret_addr e) \<and>
    (\<forall>i<N. observe e (nloads w + i) (mem w (secret_addr e)) = 0) \<and>
    observe e (nloads w + N) (mem w (secret_addr e)) = b \<and> b \<noteq> 0 \<and>
    faults e (p + push_bit 12 (ucast b))"
  let ?s = "\<lparr>pc = 11, rax = ucast (abort_status e), rbx = p, rcx = secret_addr e, zf = True,
           txn = None, reads = Suc (nloads w + N),
           events = TxBegin # replicate (Suc N) (ByteLoad (secret_addr e)) @
                    [IndexedLoad (p + push_bit 12 (ucast b)), TxAbort],
           killed = False\<rparr>"
  from h have h1: "\<not> faults e (secret_addr e)"
    and h2: "\<forall>i<N. observe e (nloads w + i) (mem w (secret_addr e)) = 0"
    and h3: "observe e (nloads w + N) (mem w (secret_addr e)) = b" and h4: "b \<noteq> 0"
    and h5: "faults e (p + push_bit 12 (ucast b))"
    by simp_all
  have r: "run e (mem w) tau_B (asm_entry e p w) = Some ?s"
    using h1 h2 h3 h4 h5 by (rule tau_B_run_fault_probe)
  then have "transient_access e tau_B p w =
      Inr (w\<lparr>trace := trace w @ events ?s, nloads := reads ?s\<rparr>)"
    by (rule transient_access_Some) simp
  with r show "\<exists>s. run e (mem w) tau_B (asm_entry e p w) = Some s \<and> \<not> killed s \<and>
           pc s = length tau_B \<and> txn s = None \<and>
           events s = TxBegin # replicate (Suc N) (ByteLoad (secret_addr e)) @
                      [IndexedLoad (p + push_bit 12 (ucast b)), TxAbort] \<and>
           reads s = Suc (nloads w + N) \<and>
           transient_access e tau_B p w =
             Inr (w\<lparr>trace := trace w @ events s, nloads := reads s\<rparr>)"
    by (intro exI [of _ ?s]) (simp add: tau_B_nth)
next
  assume h: "\<not> faults e (secret_addr e) \<and>
    (\<forall>i<N. observe e (nloads w + i) (mem w (secret_addr e)) = 0) \<and>
    observe e (nloads w + N) (mem w (secret_addr e)) = b \<and> b \<noteq> 0 \<and>
    \<not> faults e (p + push_bit 12 (ucast b))"
  let ?s = "\<lparr>pc = 11, rax = push_bit 12 (ucast b),
           rbx = load_qword (mem w) (p + push_bit 12 (ucast b)),
           rcx = secret_addr e, zf = False, txn = None, reads = Suc (nloads w + N),
           events = TxBegin # replicate (Suc N) (ByteLoad (secret_addr e)) @
                    [IndexedLoad (p + push_bit 12 (ucast b)), TxEnd],
           killed = False\<rparr>"
  from h have h1: "\<not> faults e (secret_addr e)"
    and h2: "\<forall>i<N. observe e (nloads w + i) (mem w (secret_addr e)) = 0"
    and h3: "observe e (nloads w + N) (mem w (secret_addr e)) = b" and h4: "b \<noteq> 0"
    and h5: "\<not> faults e (p + push_bit 12 (ucast b))"
    by simp_all
  have r: "run e (mem w) tau_B (asm_entry e p w) = Some ?s"
    using h1 h2 h3 h4 h5 by (rule tau_B_run)
  then have "transient_access e tau_B p w =
      Inr (w\<lparr>trace := trace w @ events ?s, nloads := reads ?s\<rparr>)"
    by (rule transient_access_Some) simp
  with r show "\<exists>s. run e (mem w) tau_B (asm_entry e p w) = Some s \<and> \<not> killed s \<and>
           pc s = length tau_B \<and> txn s = None \<and>
           events s = TxBegin # replicate (Suc N) (ByteLoad (secret_addr e)) @
                      [IndexedLoad (p + push_bit 12 (ucast b)), TxEnd] \<and>
           reads s = Suc (nloads w + N) \<and>
           transient_access e tau_B p w =
             Inr (w\<lparr>trace := trace w @ events s, nloads := reads s\<rparr>)"
    by (intro exI [of _ ?s]) (simp add: tau_B_nth)
qed (simp_all add: tau_B_nth)

text \<open>
  A witness: the secret at a protected address (every access to it faults), and the
  secret readable as in the source.
\<close>

theorem transaction_contains_faults_witness:
  "transient_access (lab flat_samples\<lparr>faults := (\<lambda>a. a = stack_addr)\<rparr>) tau_B probe_base
     (boot (lab flat_samples)) =
   Inr ((boot (lab flat_samples))\<lparr>trace := [TxBegin, ByteLoad stack_addr, TxAbort], nloads := 1\<rparr>) \<and>
   transient_access (lab flat_samples) tau_B probe_base (boot (lab flat_samples)) =
   Inr ((boot (lab flat_samples))
          \<lparr>trace := [TxBegin, ByteLoad stack_addr, IndexedLoad (probe_base + 0xFF000), TxEnd],
           nloads := 1\<rparr>)"
proof -
  let ?e = "lab flat_samples\<lparr>faults := (\<lambda>a. a = stack_addr)\<rparr>"
  let ?q = "lab flat_samples"
  let ?w = "boot (lab flat_samples)"
  have w: "trace ?w = []" "nloads ?w = 0" "mem ?w stack_addr = 0xFF"
    by (simp_all add: boot_def init_world_def lab_def lab_env_def)
  have sa: "secret_addr ?e = stack_addr" "secret_addr ?q = stack_addr"
    by (simp_all add: lab_def lab_env_def)
  have f: "faults ?e (secret_addr ?e)" by (simp add: lab_def lab_env_def)
  from transaction_contains_faults [of ?e ?w probe_base 0 "0xFF",
      THEN conjunct1, THEN mp, OF f, THEN conjunct2]
  obtain s :: cpu where "events s = [TxBegin, ByteLoad (secret_addr ?e), TxAbort]"
    and "reads s = Suc (nloads ?w)"
    and "transient_access ?e tau_B probe_base ?w =
        Inr (?w\<lparr>trace := trace ?w @ events s, nloads := reads s\<rparr>)"
    by blast
  then have one: "transient_access ?e tau_B probe_base ?w =
      Inr (?w\<lparr>trace := [TxBegin, ByteLoad stack_addr, TxAbort], nloads := 1\<rparr>)"
    by (simp add: w sa)
  have h: "\<not> faults ?q (secret_addr ?q) \<and>
    (\<forall>i<0. observe ?q (nloads ?w + i) (mem ?w (secret_addr ?q)) = 0) \<and>
    observe ?q (nloads ?w + 0) (mem ?w (secret_addr ?q)) = 0xFF \<and> (0xFF :: 8 word) \<noteq> 0 \<and>
    \<not> faults ?q (probe_base + push_bit 12 (ucast (0xFF :: 8 word)))"
    by (simp add: sa w) (simp add: lab_def lab_env_def stack_addr_def probe_base_def)
  from transaction_contains_faults [of ?q ?w probe_base 0 "0xFF",
      THEN conjunct2, THEN conjunct2, THEN conjunct1, THEN mp, OF h]
  obtain s :: cpu where "events s = TxBegin # replicate (Suc 0) (ByteLoad (secret_addr ?q)) @
                      [IndexedLoad (probe_base + push_bit 12 (ucast (0xFF :: 8 word))), TxEnd]"
    and "reads s = Suc (nloads ?w + 0)"
    and "transient_access ?q tau_B probe_base ?w =
        Inr (?w\<lparr>trace := trace ?w @ events s, nloads := reads s\<rparr>)"
    by blast
  then have two: "transient_access ?q tau_B probe_base ?w =
      Inr (?w\<lparr>trace := [TxBegin, ByteLoad stack_addr, IndexedLoad (probe_base + 0xFF000), TxEnd],
             nloads := 1\<rparr>)"
    by (simp add: w sa)
  from one two show ?thesis by simp
qed

lemma tau_nth_Suc:
  "tau_A ! Suc (Suc (Suc 0)) = Label ''retry''"
  "tau_A ! Suc (Suc (Suc (Suc 0))) = Mov_al_byte_rcx"
  "tau_A ! Suc (Suc (Suc (Suc (Suc 0)))) = Shl_rax 12"
  "tau_B ! Suc (Suc (Suc (Suc (Suc (Suc 0))))) = Shl_rax 12"
  by (simp_all add: tau_A_def tau_B_def)

lemma scrub_load_shift_A:
  assumes "\<not> faults e (secret_addr e)" and "observe e (nloads w) (m (secret_addr e)) = b"
  shows "rax (exec_n e m tau_A (Suc (Suc (Suc 0))) (asm_entry e p w)) = 0"
    and "rax (exec_n e m tau_A (Suc (Suc (Suc (Suc (Suc 0))))) (asm_entry e p w)) = ucast b"
    and "rax (exec_n e m tau_A (Suc (Suc (Suc (Suc (Suc (Suc 0)))))) (asm_entry e p w)) =
         push_bit 12 (ucast b)"
  using assms by (simp_all add: asm_entry_def tau_A_nth tau_nth_Suc Let_def)

lemma scrub_load_shift_B:
  assumes "\<not> faults e (secret_addr e)" and "observe e (nloads w) (m (secret_addr e)) = b"
  shows "rax (exec_n e m tau_B (Suc (Suc (Suc 0))) (asm_entry e p w)) = 0"
    and "rax (exec_n e m tau_B (Suc (Suc (Suc (Suc (Suc (Suc 0)))))) (asm_entry e p w)) =
         ucast b"
    and "rax (exec_n e m tau_B (Suc (Suc (Suc (Suc (Suc (Suc (Suc 0))))))) (asm_entry e p w)) =
         push_bit 12 (ucast b)"
  using assms by (simp_all add: asm_entry_def tau_B_nth tau_B_nth_Suc tau_nth_Suc Let_def)

text \<open>
  C4, as amended. For every nonzero secret byte \<open>v\<close> read as stored, and whatever
  \<^verbatim>\<open>rax\<close> and the flags hold when the block is entered, each of the two blocks clears
  \<^verbatim>\<open>rax\<close> with its \<^verbatim>\<open>xor rax, rax\<close> (after three instructions \<^verbatim>\<open>rax\<close> is 0), loads
  the byte into \<^verbatim>\<open>al\<close> (\<^verbatim>\<open>rax\<close> is then \<open>v\<close>) and shifts left by 12, so that \<^verbatim>\<open>rax\<close>
  holds exactly \<open>v * 4096\<close> (no overflow in 64 bits), and performs one indexed load, at
  \<^verbatim>\<open>probe_array + rax\<close>, the first bytes of slot \<open>v\<close> and of no other slot.
\<close>

theorem transient_access_loads_secret_slot:
  assumes "mem w (secret_addr e) = v" and "v \<noteq> 0" and "observe e (nloads w) v = v"
    and "\<not> faults e (secret_addr e)" and "\<not> faults e (slot_addr p (unat v))"
  shows "rax (exec_n e (mem w) tau_A 3 (asm_entry e p w)) = 0 \<and>
         rax (exec_n e (mem w) tau_A 5 (asm_entry e p w)) = ucast v \<and>
         rax (exec_n e (mem w) tau_A 6 (asm_entry e p w)) = push_bit 12 (ucast v) \<and>
         (\<exists>s. run e (mem w) tau_A (asm_entry e p w) = Some s \<and> \<not> killed s \<and>
             unat (rax s) = unat v * 4096 \<and>
             events s = [ByteLoad (secret_addr e), IndexedLoad (p + rax s)]) \<and>
         rax (exec_n e (mem w) tau_B 3 (asm_entry e p w)) = 0 \<and>
         rax (exec_n e (mem w) tau_B 6 (asm_entry e p w)) = ucast v \<and>
         rax (exec_n e (mem w) tau_B 7 (asm_entry e p w)) = push_bit 12 (ucast v) \<and>
         (\<exists>s. run e (mem w) tau_B (asm_entry e p w) = Some s \<and> \<not> killed s \<and>
             unat (rax s) = unat v * 4096 \<and>
             events s = [TxBegin, ByteLoad (secret_addr e), IndexedLoad (p + rax s), TxEnd]) \<and>
         unat v * 4096 < 2 ^ 64 \<and> unat v < 256 \<and>
         p + of_nat (unat v * 4096) = slot_addr p (unat v) \<and>
         (\<forall>i<256. slot_addr p i = slot_addr p (unat v) \<longrightarrow> i = unat v)"
proof (intro conjI)
  have three: "(3::nat) = Suc (Suc (Suc 0))" and five: "(5::nat) = Suc (Suc (Suc (Suc (Suc 0))))"
    and six: "(6::nat) = Suc (Suc (Suc (Suc (Suc (Suc 0)))))"
    and seven: "(7::nat) = Suc (Suc (Suc (Suc (Suc (Suc (Suc 0))))))"
    by simp_all
  have ob: "observe e (nloads w) (mem w (secret_addr e)) = v"
    using assms(1,3) by simp
  show "rax (exec_n e (mem w) tau_A 3 (asm_entry e p w)) = 0"
    unfolding three using assms(4) ob by (rule scrub_load_shift_A)
  show "rax (exec_n e (mem w) tau_A 5 (asm_entry e p w)) = ucast v"
    unfolding five using assms(4) ob by (rule scrub_load_shift_A)
  show "rax (exec_n e (mem w) tau_A 6 (asm_entry e p w)) = push_bit 12 (ucast v)"
    unfolding six using assms(4) ob by (rule scrub_load_shift_A)
  show "rax (exec_n e (mem w) tau_B 3 (asm_entry e p w)) = 0"
    unfolding three using assms(4) ob by (rule scrub_load_shift_B)
  show "rax (exec_n e (mem w) tau_B 6 (asm_entry e p w)) = ucast v"
    unfolding six using assms(4) ob by (rule scrub_load_shift_B)
  show "rax (exec_n e (mem w) tau_B 7 (asm_entry e p w)) = push_bit 12 (ucast v)"
    unfolding seven using assms(4) ob by (rule scrub_load_shift_B)
  have z: "\<forall>i<0. observe e (nloads w + i) (mem w (secret_addr e)) = 0" by simp
  have o: "observe e (nloads w + 0) (mem w (secret_addr e)) = v"
    using assms(1,3) by simp
  have nf: "\<not> faults e (p + push_bit 12 (ucast v))"
    unfolding slot_addr_shl12 by (rule assms(5))
  let ?a = "\<lparr>pc = 8, rax = push_bit 12 (ucast v),
           rbx = load_qword (mem w) (p + push_bit 12 (ucast v)),
           rcx = secret_addr e, zf = False, txn = None, reads = Suc (nloads w + 0),
           events = replicate (Suc 0) (ByteLoad (secret_addr e)) @
                    [IndexedLoad (p + push_bit 12 (ucast v))],
           killed = False\<rparr>"
  have "run e (mem w) tau_A (asm_entry e p w) = Some ?a"
    using assms(4) z o assms(2) nf by (rule tau_A_run)
  then show "\<exists>s. run e (mem w) tau_A (asm_entry e p w) = Some s \<and> \<not> killed s \<and>
             unat (rax s) = unat v * 4096 \<and>
             events s = [ByteLoad (secret_addr e), IndexedLoad (p + rax s)]"
    by (intro exI [of _ ?a]) (simp add: unat_shl12)
  let ?b = "\<lparr>pc = 11, rax = push_bit 12 (ucast v),
           rbx = load_qword (mem w) (p + push_bit 12 (ucast v)),
           rcx = secret_addr e, zf = False, txn = None, reads = Suc (nloads w + 0),
           events = TxBegin # replicate (Suc 0) (ByteLoad (secret_addr e)) @
                    [IndexedLoad (p + push_bit 12 (ucast v)), TxEnd],
           killed = False\<rparr>"
  have "run e (mem w) tau_B (asm_entry e p w) = Some ?b"
    using assms(4) z o assms(2) nf by (rule tau_B_run)
  then show "\<exists>s. run e (mem w) tau_B (asm_entry e p w) = Some s \<and> \<not> killed s \<and>
             unat (rax s) = unat v * 4096 \<and>
             events s = [TxBegin, ByteLoad (secret_addr e), IndexedLoad (p + rax s), TxEnd]"
    by (intro exI [of _ ?b]) (simp add: unat_shl12)
  show "unat v < 256" by (rule unat_byte_less)
  then show "unat v * 4096 < 2 ^ 64" by simp
  show "p + of_nat (unat v * 4096) = slot_addr p (unat v)" by (simp add: slot_addr_def)
  show "\<forall>i<256. slot_addr p i = slot_addr p (unat v) \<longrightarrow> i = unat v"
    using slot_addr_inj [OF _ unat_byte_less [of v], of _ p] by blast
qed

text \<open>
  A witness: the block of \<^verbatim>\<open>main.c\<close> entered with leftovers in \<^verbatim>\<open>rax\<close>, the secret
  \<^verbatim>\<open>0xff\<close> as in the source.
\<close>

theorem transient_access_loads_secret_slot_witness:
  "rax (asm_entry (lab flat_samples) probe_base (boot (lab flat_samples))) = 0x5A5A5A5A5A5A5A5A \<and>
   rax (exec_n (lab flat_samples) (mem (boot (lab flat_samples))) tau_A 3
          (asm_entry (lab flat_samples) probe_base (boot (lab flat_samples)))) = 0 \<and>
   rax (exec_n (lab flat_samples) (mem (boot (lab flat_samples))) tau_A 6
          (asm_entry (lab flat_samples) probe_base (boot (lab flat_samples)))) = 0xFF000 \<and>
   (\<exists>s. run (lab flat_samples) (mem (boot (lab flat_samples))) tau_A
          (asm_entry (lab flat_samples) probe_base (boot (lab flat_samples))) = Some s \<and>
        \<not> killed s \<and> unat (rax s) = 255 * 4096 \<and>
        events s = [ByteLoad stack_addr, IndexedLoad (probe_base + rax s)]) \<and>
   slot_addr probe_base 254 \<noteq> slot_addr probe_base 255"
proof -
  let ?e = "lab flat_samples"
  let ?w = "boot (lab flat_samples)"
  have sa: "secret_addr ?e = stack_addr" by (simp add: lab_def lab_env_def)
  have a1: "mem ?w (secret_addr ?e) = 0xFF" by (simp add: boot_def)
  have a2: "(0xFF :: 8 word) \<noteq> 0" by simp
  have a3: "observe ?e (nloads ?w) 0xFF = 0xFF" by (simp add: lab_def lab_env_def)
  have a4: "\<not> faults ?e (secret_addr ?e)" by (rule mapped_secret) (rule mapped_lab)
  have "\<not> faults ?e (slot_addr probe_base 255)"
    by (rule mapped_slot) (rule mapped_lab, simp)
  then have a5: "\<not> faults ?e (slot_addr probe_base (unat (0xFF :: 8 word)))" by simp
  note t = transient_access_loads_secret_slot [OF a1 a2 a3 a4 a5]
  have entry: "rax (asm_entry ?e probe_base ?w) = 0x5A5A5A5A5A5A5A5A"
    by (simp add: asm_entry_def lab_def lab_env_def)
  from t have scrub: "rax (exec_n ?e (mem ?w) tau_A 3 (asm_entry ?e probe_base ?w)) = 0"
    by (rule conjunct1)
  from t have "rax (exec_n ?e (mem ?w) tau_A 6 (asm_entry ?e probe_base ?w)) =
      push_bit 12 (ucast (0xFF :: 8 word))"
    by (rule conjunct2 [THEN conjunct2, THEN conjunct1])
  then have shift: "rax (exec_n ?e (mem ?w) tau_A 6 (asm_entry ?e probe_base ?w)) = 0xFF000"
    by simp
  from t have "\<exists>s. run ?e (mem ?w) tau_A (asm_entry ?e probe_base ?w) = Some s \<and>
        \<not> killed s \<and> unat (rax s) = unat (0xFF :: 8 word) * 4096 \<and>
        events s = [ByteLoad (secret_addr ?e), IndexedLoad (probe_base + rax s)]"
    by (rule conjunct2 [THEN conjunct2, THEN conjunct2, THEN conjunct1])
  then have r: "\<exists>s. run ?e (mem ?w) tau_A (asm_entry ?e probe_base ?w) = Some s \<and>
        \<not> killed s \<and> unat (rax s) = 255 * 4096 \<and>
        events s = [ByteLoad stack_addr, IndexedLoad (probe_base + rax s)]"
    by (simp add: sa)
  from t have "\<forall>i<256. slot_addr probe_base i = slot_addr probe_base (unat (0xFF :: 8 word)) \<longrightarrow>
      i = unat (0xFF :: 8 word)"
    by simp
  then have "(254::nat) < 256 \<longrightarrow>
      slot_addr probe_base 254 = slot_addr probe_base (unat (0xFF :: 8 word)) \<longrightarrow>
      (254::nat) = unat (0xFF :: 8 word)"
    by (rule spec)
  then have d: "slot_addr probe_base 254 \<noteq> slot_addr probe_base 255"
    by auto
  from entry scrub shift r d show ?thesis by simp
qed

text \<open>
  The claim as stated fails for the secret value 0: the shifted value is zero, so
  \<^verbatim>\<open>jz retry\<close> is taken every time, and the block of \<^verbatim>\<open>main.c\<close> never reaches its
  indexed load.
\<close>

theorem transient_access_secret_zero_counterexample:
  "mem secret_zero (secret_addr (lab flat_samples)) = 0 \<and>
   run (lab flat_samples) (mem secret_zero) tau_A
     (asm_entry (lab flat_samples) probe_base secret_zero) = None \<and>
   transient_access (lab flat_samples) tau_A probe_base secret_zero = Inl (Hang, secret_zero)"
proof -
  let ?e = "lab flat_samples"
  have nf: "\<not> faults ?e (secret_addr ?e)" by (rule mapped_secret) (rule mapped_lab)
  have m: "mem secret_zero (secret_addr ?e) = 0"
    by (simp add: secret_zero_def lab_def lab_env_def)
  then have z: "\<forall>n. observe ?e n (mem secret_zero (secret_addr ?e)) = 0"
    by (simp add: lab_def lab_env_def)
  have r: "run ?e (mem secret_zero) tau_A (asm_entry ?e probe_base secret_zero) = None"
    using nf z by (rule hang_A)
  then have "transient_access ?e tau_A probe_base secret_zero = Inl (Hang, secret_zero)"
    by (simp add: transient_access_def)
  with m r show ?thesis by simp
qed

lemma low12: "(a::64 word) AND 0xFFF = take_bit 12 a"
proof -
  have "mask 12 = (0xFFF :: 64 word)" by (simp add: mask_eq_exp_minus_1)
  then show ?thesis by (simp add: take_bit_eq_mask)
qed

lemma page_aligned_dvd: "page_aligned a \<longleftrightarrow> 4096 dvd a"
proof -
  have "take_bit 12 a = 0 \<longleftrightarrow> 2 ^ 12 dvd a" by (rule take_bit_eq_0_iff)
  then show ?thesis by (simp add: page_aligned_def low12)
qed

lemma page_aligned_slot: "page_aligned (slot_addr p i) \<longleftrightarrow> page_aligned p"
  by (simp add: page_aligned_dvd slot_addr_def)

lemma of_nat_below_size: "j < 1048576 \<Longrightarrow> (of_nat j :: 64 word) < 1048576"
  by (simp add: word_less_nat_alt unat_of_nat)

lemma probe_base_unaligned: "\<not> page_aligned (slot_addr probe_base 0)"
  by (simp add: page_aligned_def slot_addr_def probe_base_def)

lemma slot_of_byte: "j < 1048576 \<Longrightarrow> \<exists>!i. i < 256 \<and> i * 4096 \<le> j \<and> j < i * 4096 + (4096::nat)"
proof (rule ex1I [of _ "j div 4096"])
  assume "j < 1048576"
  then show "j div 4096 < 256 \<and> j div 4096 * 4096 \<le> j \<and> j < j div 4096 * 4096 + 4096"
    by (auto simp add: div_less_iff_less_mult)
next
  fix i assume "j < 1048576" and "i < 256 \<and> i * 4096 \<le> j \<and> j < i * 4096 + 4096"
  then show "i = j div 4096" by (auto intro!: div_nat_eqI [symmetric] simp add: mult.commute)
qed

section \<open>The traces of the two programs\<close>

text \<open>
  The shape of every trace: the flushes come first, in slot order, and whatever follows
  them is no flush and follows all 256 of them.
\<close>

lemma main_c_trace:
  "\<exists>k rest. 0 < k \<and> k \<le> 256 \<and>
     trace (snd (main_c e)) = map (\<lambda>j. Clflush (slot_addr (alloc_result e) j)) [0..<k] @ rest \<and>
     (\<forall>ev\<in>set rest. measuring (alloc_result e) ev) \<and> (rest \<noteq> [] \<longrightarrow> k = 256) \<and>
     mem (snd (main_c e)) = mem (arena e) \<and> err (snd (main_c e)) = [] \<and>
     fst (main_c e) \<noteq> Exit 1 \<and>
        (fst (main_c e) = Exit 0 \<longrightarrow> k = 256)"
proof -
  let ?p = "alloc_result e"
  let ?F = "\<lambda>k. map (\<lambda>j. Clflush (slot_addr ?p j)) [0..<k]"
  show ?thesis
  proof (cases "flush_loop e ?p 0 (arena e)")
    case (Inl x)
    obtain st w' where x: "x = (st, w')" by (cases x)
    with Inl obtain k where st: "st = Segv" and k: "0 < k" "k \<le> 256"
      and w': "w' = (arena e)\<lparr>trace := trace (arena e) @ ?F k\<rparr>"
      by (auto dest!: flush_loop_Inl)
    from Inl x have "main_c e = (st, w')" by (simp add: main_c_unfold)
    with st k w' have "0 < k \<and> k \<le> 256 \<and> trace (snd (main_c e)) = ?F k @ [] \<and>
        (\<forall>ev\<in>set []. measuring ?p ev) \<and> ([] \<noteq> [] \<longrightarrow> k = 256) \<and>
        mem (snd (main_c e)) = mem (arena e) \<and> err (snd (main_c e)) = [] \<and>
        fst (main_c e) \<noteq> Exit 1 \<and>
        (fst (main_c e) = Exit 0 \<longrightarrow> k = 256)"
      by (simp add: arena_fields)
    then show ?thesis by blast
  next
    case fl: (Inr w3)
    then have w3: "w3 = (arena e)\<lparr>trace := trace (arena e) @ ?F 256\<rparr>"
      by (rule flush_loop_Inr)
    have "\<exists>st w'. main_c e = (st, w') \<and> extends (measuring ?p) w3 w' \<and> st \<noteq> Exit 1"
    proof (cases "table_loop e ?p 0 w3")
      case (Inl x)
      obtain st w' where x: "x = (st, w')" by (cases x)
      with Inl have "extends (measuring ?p) w3 w'" "st = Segv \<or> st = Hang"
        using table_loop_extends [of e ?p 0 w3 st w'] table_loop_stop [of e ?p 0 w3 st w']
        by auto
      moreover from Inl x fl have "main_c e = (st, w')" by (simp add: main_c_unfold)
      ultimately show ?thesis by auto
    next
      case (Inr w4)
      then have "extends (measuring ?p) w3 w4"
        using table_loop_extends [of e ?p 0 w3 Segv w4] by simp
      moreover from Inr fl have "main_c e = (Exit 0, w4)" by (simp add: main_c_unfold)
      ultimately show ?thesis by auto
    qed
    then obtain st w' where m: "main_c e = (st, w')" and ex: "extends (measuring ?p) w3 w'"
      and st: "st \<noteq> Exit 1" by blast
    from ex obtain evs where "trace w' = trace w3 @ evs" "\<forall>ev\<in>set evs. measuring ?p ev"
      "mem w' = mem w3" "err w' = err w3"
      by (auto simp add: extends_def)
    with w3 m st have "0 < (256::nat) \<and> (256::nat) \<le> 256 \<and>
        trace (snd (main_c e)) = ?F 256 @ evs \<and>
        (\<forall>ev\<in>set evs. measuring ?p ev) \<and> (evs \<noteq> [] \<longrightarrow> (256::nat) = 256) \<and>
        mem (snd (main_c e)) = mem (arena e) \<and> err (snd (main_c e)) = [] \<and>
        fst (main_c e) \<noteq> Exit 1 \<and>
        (fst (main_c e) = Exit 0 \<longrightarrow> (256::nat) = 256)"
      by (simp add: arena_fields)
    then show ?thesis by blast
  qed
qed

lemma meltdown_c_trace:
  "\<exists>k rest. k \<le> 256 \<and>
     trace (snd (meltdown_c e)) = map (\<lambda>j. Clflush (slot_addr (alloc_result e) j)) [0..<k] @ rest \<and>
     (\<forall>ev\<in>set rest. measuring (alloc_result e) ev) \<and> (rest \<noteq> [] \<longrightarrow> k = 256) \<and>
     mem (snd (meltdown_c e)) = mem (arena e) \<and>
        (fst (meltdown_c e) = Exit 0 \<longrightarrow> k = 256)"
proof -
  let ?p = "alloc_result e"
  let ?F = "\<lambda>k. map (\<lambda>j. Clflush (slot_addr ?p j)) [0..<k]"
  show ?thesis
  proof (cases "?p = NULL")
    case True
    then have "(0::nat) \<le> 256 \<and> trace (snd (meltdown_c e)) = ?F 0 @ [] \<and>
        (\<forall>ev\<in>set []. measuring ?p ev) \<and> ([] \<noteq> [] \<longrightarrow> (0::nat) = 256) \<and>
        mem (snd (meltdown_c e)) = mem (arena e) \<and>
        (fst (meltdown_c e) = Exit 0 \<longrightarrow> (0::nat) = 256)"
      by (simp add: meltdown_c_unfold arena_fields)
    then show ?thesis by blast
  next
    case nn: False
    show ?thesis
    proof (cases "flush_loop e ?p 0 (arena e)")
      case (Inl x)
      obtain st w' where x: "x = (st, w')" by (cases x)
      with Inl obtain k where st: "st = Segv" and k: "0 < k" "k \<le> 256"
        and w': "w' = (arena e)\<lparr>trace := trace (arena e) @ ?F k\<rparr>"
        by (auto dest!: flush_loop_Inl)
      from Inl x nn have "meltdown_c e = (st, w')" by (simp add: meltdown_c_unfold)
      with st k w' have "k \<le> 256 \<and> trace (snd (meltdown_c e)) = ?F k @ [] \<and>
          (\<forall>ev\<in>set []. measuring ?p ev) \<and> ([] \<noteq> [] \<longrightarrow> k = 256) \<and>
          mem (snd (meltdown_c e)) = mem (arena e) \<and>
        (fst (meltdown_c e) = Exit 0 \<longrightarrow> k = 256)"
        by (simp add: arena_fields)
      then show ?thesis by blast
    next
      case fl: (Inr w3)
      then have w3: "w3 = (arena e)\<lparr>trace := trace (arena e) @ ?F 256\<rparr>"
        by (rule flush_loop_Inr)
      have "\<exists>w'. trace (snd (meltdown_c e)) = trace w' \<and> mem (snd (meltdown_c e)) = mem w' \<and>
                extends (measuring ?p) w3 w'"
      proof (cases "guess_loop e ?p 0 UINT32_MAX (- 1) w3")
        case (Inl x)
        obtain st w' where x: "x = (st, w')" by (cases x)
        with Inl have "extends (measuring ?p) w3 w'"
          using guess_loop_extends by blast
        moreover from Inl x fl nn have "meltdown_c e = (st, w')"
          by (simp add: meltdown_c_unfold)
        ultimately show ?thesis by auto
      next
        case (Inr y)
        obtain lt lv w4 where y: "y = (lt, lv, w4)" by (cases y)
        with Inr have "extends (measuring ?p) w3 w4"
          using guess_loop_extends by blast
        moreover from Inr y fl nn
        have "meltdown_c e = (Exit 0, w4\<lparr>out := out w4 @ [(lv, lt)]\<rparr>)"
          by (simp add: meltdown_c_unfold)
        ultimately show ?thesis by auto
      qed
      then obtain w' where t: "trace (snd (meltdown_c e)) = trace w'"
        and m: "mem (snd (meltdown_c e)) = mem w'" and ex: "extends (measuring ?p) w3 w'"
        by blast
      from ex obtain evs where "trace w' = trace w3 @ evs" "\<forall>ev\<in>set evs. measuring ?p ev"
        "mem w' = mem w3"
        by (auto simp add: extends_def)
      with w3 t m have "(256::nat) \<le> 256 \<and>
          trace (snd (meltdown_c e)) = ?F 256 @ evs \<and>
          (\<forall>ev\<in>set evs. measuring ?p ev) \<and> (evs \<noteq> [] \<longrightarrow> (256::nat) = 256) \<and>
          mem (snd (meltdown_c e)) = mem (arena e) \<and>
        (fst (meltdown_c e) = Exit 0 \<longrightarrow> (256::nat) = 256)"
        by (simp add: arena_fields)
      then show ?thesis by blast
    qed
  qed
qed

section \<open>Slot addresses and the allocated block\<close>

lemma unat_slot_offset: "i < 256 \<Longrightarrow> unat (slot_addr p i - p) = i * 4096"
proof -
  assume "i < 256"
  then have "i * 4096 < 2 ^ 64" by simp
  then have "unat (of_nat (i * 4096) :: 64 word) = i * 4096"
    using unat_of_nat [where ?'a = 64, of "i * 4096"] by simp
  then show ?thesis by (simp add: slot_addr_def)
qed

lemma quiet_trace_members:
  assumes "quiet e" and "i < 256"
  shows "Clflush (slot_addr (alloc_result e) i) \<in> set (trace (snd (main_c e)))"
    and "TimedLoad (slot_addr (alloc_result e) i) \<in> set (trace (snd (main_c e)))"
    and "Clflush (slot_addr (alloc_result e) i) \<in> set (trace (snd (meltdown_c e)))"
    and "TimedLoad (slot_addr (alloc_result e) i) \<in> set (trace (snd (meltdown_c e)))"
  using assms(2)
  by (auto simp add: main_c_quiet(2) [OF assms(1)] meltdown_c_quiet(2) [OF assms(1)]
        iter_A_def iter_B_def)

lemma trace_operands:
  assumes "ev \<in> set (trace (snd (main_c e))) \<or> ev \<in> set (trace (snd (meltdown_c e)))"
  shows "at_slot_start (alloc_result e) ev"
proof -
  let ?p = "alloc_result e"
  have flush: "at_slot_start ?p (Clflush (slot_addr ?p j))" if "j < 256" for j
    using that by (auto simp add: at_slot_start_def)
  have "at_slot_start ?p ev"
    if "tr = map (\<lambda>j. Clflush (slot_addr ?p j)) [0..<k] @ rest" "k \<le> 256"
       "\<forall>ev\<in>set rest. measuring ?p ev" "ev \<in> set tr" for tr k rest
  proof -
    from that(1,4) consider j where "j < k" "ev = Clflush (slot_addr ?p j)" | "ev \<in> set rest"
      by auto
    then show ?thesis
    proof cases
      case 1
      with that(2) show ?thesis by (simp add: flush)
    next
      case 2
      with that(3) show ?thesis by (simp add: measuring_def)
    qed
  qed
  with assms main_c_trace [of e] meltdown_c_trace [of e] show ?thesis by blast
qed

lemma tau_events_no_timed: "tau_events_ok p evs \<Longrightarrow> filter is_timed evs = []"
  by (auto simp add: tau_events_ok_def filter_empty_conv elim!: is_timed.elims)

lemma transient_access_A_timed:
  "transient_access e tau_A p w = Inl (st, w') \<Longrightarrow>
     filter is_timed (trace w') = filter is_timed (trace w)"
  "transient_access e tau_A p w = Inr w' \<Longrightarrow>
     filter is_timed (trace w') = filter is_timed (trace w)"
  using tau_A_events [of e "mem w" p w]
  by (auto simp add: transient_access_def Let_def tau_events_no_timed
        split: option.splits if_splits)

lemma transient_access_B_timed:
  "transient_access e tau_B p w = Inl (st, w') \<Longrightarrow>
     filter is_timed (trace w') = filter is_timed (trace w)"
  "transient_access e tau_B p w = Inr w' \<Longrightarrow>
     filter is_timed (trace w') = filter is_timed (trace w)"
  using tau_B_events [of e "mem w" p w]
  by (auto simp add: transient_access_def Let_def tau_events_no_timed
        split: option.splits if_splits)

text \<open>
  The timed loads of a measuring loop, in the order in which they are issued: iteration
  \<open>j\<close> times slot \<open>j\<close>.
\<close>

lemma table_loop_timed:
  "(table_loop e p i w = Inl (st, w') \<longrightarrow>
      (\<exists>n. i \<le> n \<and> n \<le> 256 \<and>
         filter is_timed (trace w') =
         filter is_timed (trace w) @ map (\<lambda>j. TimedLoad (slot_addr p j)) [i..<n])) \<and>
   (table_loop e p i w = Inr w' \<longrightarrow>
      filter is_timed (trace w') =
      filter is_timed (trace w) @ map (\<lambda>j. TimedLoad (slot_addr p j)) [i..<256])"
proof (induction e p i w rule: table_loop.induct)
  case (1 e p i w)
  let ?T = "\<lambda>a b. map (\<lambda>j. TimedLoad (slot_addr p j)) [a..<b]"
  show ?case
  proof (cases "i < 256")
    case False
    then show ?thesis by (simp add: table_loop.simps [of e p i w])
  next
    case True
    then have upt: "[i..<256] = i # [i + 1..<256]" by (simp add: upt_conv_Cons)
    show ?thesis
    proof (cases "transient_access e tau_A p w")
      case (Inl x)
      obtain st1 w1' where x: "x = (st1, w1')" by (cases x)
      with Inl have "filter is_timed (trace w1') = filter is_timed (trace w)"
        using transient_access_A_timed(1) by blast
      then have "i \<le> i \<and> i \<le> 256 \<and>
          filter is_timed (trace w1') = filter is_timed (trace w) @ ?T i i"
        using True by simp
      then have "\<exists>n. i \<le> n \<and> n \<le> 256 \<and>
          filter is_timed (trace w1') = filter is_timed (trace w) @ ?T i n"
        by blast
      with Inl x True show ?thesis by (auto simp add: table_loop.simps [of e p i w])
    next
      case ta: (Inr w1)
      then have f1: "filter is_timed (trace w1) = filter is_timed (trace w)"
        by (rule transient_access_A_timed(2))
      show ?thesis
      proof (cases "timed_read e (slot_addr p i) w1")
        case (Inl x)
        obtain st1 w1' where x: "x = (st1, w1')" by (cases x)
        with Inl have "trace w1' = trace w1 @ [TimedLoad (slot_addr p i)]"
          by (auto dest: timed_read_Inl)
        with f1 have "i \<le> Suc i \<and> Suc i \<le> 256 \<and>
            filter is_timed (trace w1') = filter is_timed (trace w) @ ?T i (Suc i)"
          using True by simp
        then have "\<exists>n. i \<le> n \<and> n \<le> 256 \<and>
            filter is_timed (trace w1') = filter is_timed (trace w) @ ?T i n"
          by blast
        with Inl x ta True show ?thesis by (auto simp add: table_loop.simps [of e p i w])
      next
        case tr: (Inr y)
        obtain time w2 where y: "y = (time, w2)" by (cases y)
        let ?w3 = "w2\<lparr>out := out w2 @ [(int i, time)]\<rparr>"
        from tr y have "trace w2 = trace w1 @ [TimedLoad (slot_addr p i)]"
          by (auto dest: timed_read_Inr)
        with f1 have f3: "filter is_timed (trace ?w3) =
            filter is_timed (trace w) @ [TimedLoad (slot_addr p i)]"
          by simp
        have unfold: "table_loop e p i w = table_loop e p (i + 1) ?w3"
          using True ta tr y by (simp add: table_loop.simps [of e p i w])
        note ih = "1.IH" [OF True ta tr y [symmetric]]
        show ?thesis
        proof (intro conjI impI)
          assume "table_loop e p i w = Inl (st, w')"
          then have "table_loop e p (i + 1) ?w3 = Inl (st, w')" by (simp only: unfold)
          with ih obtain n where n: "i + 1 \<le> n" "n \<le> 256"
            and f: "filter is_timed (trace w') = filter is_timed (trace ?w3) @ ?T (i + 1) n"
            by blast
          from n have "[i..<n] = i # [i + 1..<n]" by (simp add: upt_conv_Cons)
          with f f3 n have "i \<le> n \<and> n \<le> 256 \<and>
              filter is_timed (trace w') = filter is_timed (trace w) @ ?T i n"
            by simp
          then show "\<exists>n. i \<le> n \<and> n \<le> 256 \<and>
              filter is_timed (trace w') = filter is_timed (trace w) @ ?T i n"
            by blast
        next
          assume "table_loop e p i w = Inr w'"
          then have "table_loop e p (i + 1) ?w3 = Inr w'" by (simp only: unfold)
          with ih have "filter is_timed (trace w') =
              filter is_timed (trace ?w3) @ ?T (i + 1) 256"
            by blast
          with f3 show "filter is_timed (trace w') = filter is_timed (trace w) @ ?T i 256"
            by (simp add: upt)
        qed
      qed
    qed
  qed
qed

lemma guess_loop_timed:
  "(guess_loop e p i lt lv w = Inl (st, w') \<longrightarrow>
      (\<exists>n. i \<le> n \<and> n \<le> 256 \<and>
         filter is_timed (trace w') =
         filter is_timed (trace w) @ map (\<lambda>j. TimedLoad (slot_addr p j)) [i..<n])) \<and>
   (guess_loop e p i lt lv w = Inr (lt', lv', w') \<longrightarrow>
      filter is_timed (trace w') =
      filter is_timed (trace w) @ map (\<lambda>j. TimedLoad (slot_addr p j)) [i..<256])"
proof (induction e p i lt lv w rule: guess_loop.induct)
  case (1 e p i lt lv w)
  let ?T = "\<lambda>a b. map (\<lambda>j. TimedLoad (slot_addr p j)) [a..<b]"
  show ?case
  proof (cases "i < 256")
    case False
    then show ?thesis by (simp add: guess_loop.simps [of e p i lt lv w])
  next
    case True
    then have upt: "[i..<256] = i # [i + 1..<256]" by (simp add: upt_conv_Cons)
    show ?thesis
    proof (cases "transient_access e tau_B p w")
      case (Inl x)
      obtain st1 w1' where x: "x = (st1, w1')" by (cases x)
      with Inl have "filter is_timed (trace w1') = filter is_timed (trace w)"
        using transient_access_B_timed(1) by blast
      then have "i \<le> i \<and> i \<le> 256 \<and>
          filter is_timed (trace w1') = filter is_timed (trace w) @ ?T i i"
        using True by simp
      then have "\<exists>n. i \<le> n \<and> n \<le> 256 \<and>
          filter is_timed (trace w1') = filter is_timed (trace w) @ ?T i n"
        by blast
      with Inl x True show ?thesis by (auto simp add: guess_loop.simps [of e p i lt lv w])
    next
      case ta: (Inr w1)
      then have f1: "filter is_timed (trace w1) = filter is_timed (trace w)"
        by (rule transient_access_B_timed(2))
      show ?thesis
      proof (cases "timed_read e (slot_addr p i) w1")
        case (Inl x)
        obtain st1 w1' where x: "x = (st1, w1')" by (cases x)
        with Inl have "trace w1' = trace w1 @ [TimedLoad (slot_addr p i)]"
          by (auto dest: timed_read_Inl)
        with f1 have "i \<le> Suc i \<and> Suc i \<le> 256 \<and>
            filter is_timed (trace w1') = filter is_timed (trace w) @ ?T i (Suc i)"
          using True by simp
        then have "\<exists>n. i \<le> n \<and> n \<le> 256 \<and>
            filter is_timed (trace w1') = filter is_timed (trace w) @ ?T i n"
          by blast
        with Inl x ta True show ?thesis
          by (auto simp add: guess_loop.simps [of e p i lt lv w])
      next
        case tr: (Inr y)
        obtain time w2 where y: "y = (time, w2)" by (cases y)
        from tr y have "trace w2 = trace w1 @ [TimedLoad (slot_addr p i)]"
          by (auto dest: timed_read_Inr)
        with f1 have f3: "filter is_timed (trace w2) =
            filter is_timed (trace w) @ [TimedLoad (slot_addr p i)]"
          by simp
        obtain lt2 lv2 where unfold: "guess_loop e p i lt lv w = guess_loop e p (i + 1) lt2 lv2 w2"
          and ih: "(guess_loop e p (i + 1) lt2 lv2 w2 = Inl (st, w') \<longrightarrow>
              (\<exists>n. i + 1 \<le> n \<and> n \<le> 256 \<and>
                 filter is_timed (trace w') = filter is_timed (trace w2) @ ?T (i + 1) n)) \<and>
             (guess_loop e p (i + 1) lt2 lv2 w2 = Inr (lt', lv', w') \<longrightarrow>
              filter is_timed (trace w') = filter is_timed (trace w2) @ ?T (i + 1) 256)"
        proof (cases "time < lt")
          case lt: True
          have "guess_loop e p i lt lv w = guess_loop e p (i + 1) time (int i) w2"
            using True ta tr y lt by (simp add: guess_loop.simps [of e p i lt lv w])
          with "1.IH"(1) [OF True ta tr y [symmetric] lt] that show ?thesis by blast
        next
          case ge: False
          have "guess_loop e p i lt lv w = guess_loop e p (i + 1) lt lv w2"
            using True ta tr y ge by (simp add: guess_loop.simps [of e p i lt lv w])
          with "1.IH"(2) [OF True ta tr y [symmetric] ge] that show ?thesis by blast
        qed
        show ?thesis
        proof (intro conjI impI)
          assume "guess_loop e p i lt lv w = Inl (st, w')"
          then have "guess_loop e p (i + 1) lt2 lv2 w2 = Inl (st, w')" by (simp only: unfold)
          with ih obtain n where n: "i + 1 \<le> n" "n \<le> 256"
            and f: "filter is_timed (trace w') = filter is_timed (trace w2) @ ?T (i + 1) n"
            by blast
          from n have "[i..<n] = i # [i + 1..<n]" by (simp add: upt_conv_Cons)
          with f f3 n have "i \<le> n \<and> n \<le> 256 \<and>
              filter is_timed (trace w') = filter is_timed (trace w) @ ?T i n"
            by simp
          then show "\<exists>n. i \<le> n \<and> n \<le> 256 \<and>
              filter is_timed (trace w') = filter is_timed (trace w) @ ?T i n"
            by blast
        next
          assume "guess_loop e p i lt lv w = Inr (lt', lv', w')"
          then have "guess_loop e p (i + 1) lt2 lv2 w2 = Inr (lt', lv', w')"
            by (simp only: unfold)
          with ih have "filter is_timed (trace w') =
              filter is_timed (trace w2) @ ?T (i + 1) 256"
            by blast
          with f3 show "filter is_timed (trace w') = filter is_timed (trace w) @ ?T i 256"
            by (simp add: upt)
        qed
      qed
    qed
  qed
qed

lemma flushes_not_timed: "filter is_timed (map (\<lambda>j. Clflush (f j)) js) = []"
  by (induction js) simp_all

lemma flushes_all_flush: "filter is_flush (map (\<lambda>j. Clflush (f j)) js) = map (\<lambda>j. Clflush (f j)) js"
  by (induction js) simp_all

lemma measuring_not_flush: "\<forall>ev\<in>set rest. measuring p ev \<Longrightarrow> filter is_flush rest = []"
  by (auto simp add: filter_empty_conv measuring_def)

lemma main_c_flushes:
  "\<exists>k\<le>256. filter is_flush (trace (snd (main_c e))) =
              map (\<lambda>j. Clflush (slot_addr (alloc_result e) j)) [0..<k] \<and>
            (fst (main_c e) = Exit 0 \<longrightarrow> k = 256)"
proof -
  from main_c_trace [of e] obtain k rest where k: "k \<le> 256"
    and t: "trace (snd (main_c e)) =
            map (\<lambda>j. Clflush (slot_addr (alloc_result e) j)) [0..<k] @ rest"
    and m: "\<forall>ev\<in>set rest. measuring (alloc_result e) ev"
    and x: "fst (main_c e) = Exit 0 \<longrightarrow> k = 256"
    by blast
  from t m have "filter is_flush (trace (snd (main_c e))) =
      map (\<lambda>j. Clflush (slot_addr (alloc_result e) j)) [0..<k]"
    by (simp add: flushes_all_flush measuring_not_flush)
  with k x show ?thesis by blast
qed

lemma meltdown_c_flushes:
  "\<exists>k\<le>256. filter is_flush (trace (snd (meltdown_c e))) =
              map (\<lambda>j. Clflush (slot_addr (alloc_result e) j)) [0..<k] \<and>
            (fst (meltdown_c e) = Exit 0 \<longrightarrow> k = 256)"
proof -
  from meltdown_c_trace [of e] obtain k rest where k: "k \<le> 256"
    and t: "trace (snd (meltdown_c e)) =
            map (\<lambda>j. Clflush (slot_addr (alloc_result e) j)) [0..<k] @ rest"
    and m: "\<forall>ev\<in>set rest. measuring (alloc_result e) ev"
    and x: "fst (meltdown_c e) = Exit 0 \<longrightarrow> k = 256"
    by blast
  from t m have "filter is_flush (trace (snd (meltdown_c e))) =
      map (\<lambda>j. Clflush (slot_addr (alloc_result e) j)) [0..<k]"
    by (simp add: flushes_all_flush measuring_not_flush)
  with k x show ?thesis by blast
qed

lemma main_c_timed:
  "\<exists>n\<le>256. filter is_timed (trace (snd (main_c e))) =
              map (\<lambda>j. TimedLoad (slot_addr (alloc_result e) j)) [0..<n] \<and>
            (fst (main_c e) = Exit 0 \<longrightarrow> n = 256)"
proof -
  let ?p = "alloc_result e"
  let ?T = "\<lambda>n. map (\<lambda>j. TimedLoad (slot_addr ?p j)) [0..<n]"
  show ?thesis
  proof (cases "flush_loop e ?p 0 (arena e)")
    case (Inl x)
    obtain st w' where x: "x = (st, w')" by (cases x)
    with Inl obtain k where st: "st = Segv"
      and w': "w' = (arena e)\<lparr>trace := trace (arena e) @
                 map (\<lambda>j. Clflush (slot_addr ?p j)) [0..<k]\<rparr>"
      by (auto dest!: flush_loop_Inl)
    from Inl x have "main_c e = (st, w')" by (simp add: main_c_unfold)
    with st w' have "(0::nat) \<le> 256 \<and> filter is_timed (trace (snd (main_c e))) = ?T 0 \<and>
        (fst (main_c e) = Exit 0 \<longrightarrow> (0::nat) = 256)"
      by (simp add: arena_fields flushes_not_timed)
    then show ?thesis by blast
  next
    case fl: (Inr w3)
    then have "w3 = (arena e)\<lparr>trace := trace (arena e) @
                 map (\<lambda>j. Clflush (slot_addr ?p j)) [0..<256]\<rparr>"
      by (rule flush_loop_Inr)
    then have f3: "filter is_timed (trace w3) = []"
      by (simp add: arena_fields flushes_not_timed)
    show ?thesis
    proof (cases "table_loop e ?p 0 w3")
      case (Inl x)
      obtain st w' where x: "x = (st, w')" by (cases x)
      with Inl have st: "st = Segv \<or> st = Hang"
        using table_loop_stop [of e ?p 0 w3 st w'] by simp
      from Inl x obtain n where n: "n \<le> 256"
        and f: "filter is_timed (trace w') = filter is_timed (trace w3) @ ?T n"
        using table_loop_timed [of e ?p 0 w3 st w'] by auto
      from Inl x fl have "main_c e = (st, w')" by (simp add: main_c_unfold)
      with st n f f3 have "n \<le> 256 \<and> filter is_timed (trace (snd (main_c e))) = ?T n \<and>
          (fst (main_c e) = Exit 0 \<longrightarrow> n = 256)"
        by auto
      then show ?thesis by blast
    next
      case (Inr w4)
      then have "filter is_timed (trace w4) = filter is_timed (trace w3) @ ?T 256"
        using table_loop_timed [of e ?p 0 w3 Segv w4] by simp
      moreover from Inr fl have "main_c e = (Exit 0, w4)" by (simp add: main_c_unfold)
      ultimately have "(256::nat) \<le> 256 \<and> filter is_timed (trace (snd (main_c e))) = ?T 256 \<and>
          (fst (main_c e) = Exit 0 \<longrightarrow> (256::nat) = 256)"
        using f3 by simp
      then show ?thesis by blast
    qed
  qed
qed

lemma meltdown_c_timed:
  "\<exists>n\<le>256. filter is_timed (trace (snd (meltdown_c e))) =
              map (\<lambda>j. TimedLoad (slot_addr (alloc_result e) j)) [0..<n] \<and>
            (fst (meltdown_c e) = Exit 0 \<longrightarrow> n = 256)"
proof -
  let ?p = "alloc_result e"
  let ?T = "\<lambda>n. map (\<lambda>j. TimedLoad (slot_addr ?p j)) [0..<n]"
  show ?thesis
  proof (cases "?p = NULL")
    case True
    then have "(0::nat) \<le> 256 \<and> filter is_timed (trace (snd (meltdown_c e))) = ?T 0 \<and>
        (fst (meltdown_c e) = Exit 0 \<longrightarrow> (0::nat) = 256)"
      by (simp add: meltdown_c_unfold arena_fields)
    then show ?thesis by blast
  next
    case nn: False
    show ?thesis
    proof (cases "flush_loop e ?p 0 (arena e)")
      case (Inl x)
      obtain st w' where x: "x = (st, w')" by (cases x)
      with Inl obtain k where st: "st = Segv"
        and w': "w' = (arena e)\<lparr>trace := trace (arena e) @
                   map (\<lambda>j. Clflush (slot_addr ?p j)) [0..<k]\<rparr>"
        by (auto dest!: flush_loop_Inl)
      from Inl x nn have "meltdown_c e = (st, w')" by (simp add: meltdown_c_unfold)
      with st w' have "(0::nat) \<le> 256 \<and> filter is_timed (trace (snd (meltdown_c e))) = ?T 0 \<and>
          (fst (meltdown_c e) = Exit 0 \<longrightarrow> (0::nat) = 256)"
        by (simp add: arena_fields flushes_not_timed)
      then show ?thesis by blast
    next
      case fl: (Inr w3)
      then have "w3 = (arena e)\<lparr>trace := trace (arena e) @
                   map (\<lambda>j. Clflush (slot_addr ?p j)) [0..<256]\<rparr>"
        by (rule flush_loop_Inr)
      then have f3: "filter is_timed (trace w3) = []"
        by (simp add: arena_fields flushes_not_timed)
      show ?thesis
      proof (cases "guess_loop e ?p 0 UINT32_MAX (- 1) w3")
        case (Inl x)
        obtain st w' where x: "x = (st, w')" by (cases x)
        with Inl have st: "st = Segv \<or> st = Hang"
          using guess_loop_stop [of e ?p 0 UINT32_MAX "- 1" w3 st w'] by simp
        from Inl x obtain n where n: "n \<le> 256"
          and f: "filter is_timed (trace w') = filter is_timed (trace w3) @ ?T n"
          using guess_loop_timed [of e ?p 0 UINT32_MAX "- 1" w3 st w'] by auto
        from Inl x fl nn have "meltdown_c e = (st, w')" by (simp add: meltdown_c_unfold)
        with st n f f3 have "n \<le> 256 \<and> filter is_timed (trace (snd (meltdown_c e))) = ?T n \<and>
            (fst (meltdown_c e) = Exit 0 \<longrightarrow> n = 256)"
          by auto
        then show ?thesis by blast
      next
        case (Inr y)
        obtain lt lv w4 where y: "y = (lt, lv, w4)" by (cases y)
        with Inr have "filter is_timed (trace w4) = filter is_timed (trace w3) @ ?T 256"
          using guess_loop_timed [of e ?p 0 UINT32_MAX "- 1" w3 Segv w4 lt lv] by simp
        moreover from Inr y fl nn
        have "meltdown_c e = (Exit 0, w4\<lparr>out := out w4 @ [(lv, lt)]\<rparr>)"
          by (simp add: meltdown_c_unfold)
        ultimately have "(256::nat) \<le> 256 \<and>
            filter is_timed (trace (snd (meltdown_c e))) = ?T 256 \<and>
            (fst (meltdown_c e) = Exit 0 \<longrightarrow> (256::nat) = 256)"
          using f3 by simp
        then show ?thesis by blast
      qed
    qed
  qed
qed
text \<open>
  C8, as amended. In every run of either program the flushes, in the order in which they
  are issued, are at \<^verbatim>\<open>probe_array + i * 4096\<close> for \<open>i = 0, 1, 2, \<dots>\<close>, and so are the
  timed loads: the \<open>i\<close>-th flush and the \<open>i\<close>-th timed load both address the base plus
  \<open>i * 4096\<close>. In a runnable environment there are 256 of each. The 256 addresses lie
  \<open>i * 4096\<close> bytes above the base and are pairwise distinct; each is page-aligned exactly
  when the base that \<^verbatim>\<open>calloc\<close> returned is.
\<close>

theorem slot_addresses_distinct_and_aligned_with_base:
  "(\<exists>k\<le>256. filter is_flush (trace (snd (main_c e))) =
               map (\<lambda>i. Clflush (alloc_result e + of_nat (i * 4096))) [0..<k] \<and>
             (runnable e \<longrightarrow> k = 256)) \<and>
   (\<exists>n\<le>256. filter is_timed (trace (snd (main_c e))) =
               map (\<lambda>i. TimedLoad (alloc_result e + of_nat (i * 4096))) [0..<n] \<and>
             (runnable e \<longrightarrow> n = 256)) \<and>
   (\<exists>k\<le>256. filter is_flush (trace (snd (meltdown_c e))) =
               map (\<lambda>i. Clflush (alloc_result e + of_nat (i * 4096))) [0..<k] \<and>
             (runnable e \<longrightarrow> k = 256)) \<and>
   (\<exists>n\<le>256. filter is_timed (trace (snd (meltdown_c e))) =
               map (\<lambda>i. TimedLoad (alloc_result e + of_nat (i * 4096))) [0..<n] \<and>
             (runnable e \<longrightarrow> n = 256)) \<and>
   (\<forall>i<256. \<forall>j<256. (p::addr) + of_nat (i * 4096) = p + of_nat (j * 4096) \<longrightarrow> i = j) \<and>
   (\<forall>i<256. unat (p + of_nat (i * 4096) - p) = i * 4096) \<and>
   (\<forall>i<256. page_aligned (p + of_nat (i * 4096)) \<longleftrightarrow> page_aligned p)"
proof (intro conjI allI impI)
  have rm: "fst (main_c e) = Exit 0" if "runnable e" using that by (rule main_c_runnable)
  have rs: "fst (meltdown_c e) = Exit 0" if "runnable e" using that by (rule meltdown_c_runnable)
  from main_c_flushes [of e] rm
  show "\<exists>k\<le>256. filter is_flush (trace (snd (main_c e))) =
               map (\<lambda>i. Clflush (alloc_result e + of_nat (i * 4096))) [0..<k] \<and>
             (runnable e \<longrightarrow> k = 256)"
    unfolding slot_addr_def by blast
  from main_c_timed [of e] rm
  show "\<exists>n\<le>256. filter is_timed (trace (snd (main_c e))) =
               map (\<lambda>i. TimedLoad (alloc_result e + of_nat (i * 4096))) [0..<n] \<and>
             (runnable e \<longrightarrow> n = 256)"
    unfolding slot_addr_def by blast
  from meltdown_c_flushes [of e] rs
  show "\<exists>k\<le>256. filter is_flush (trace (snd (meltdown_c e))) =
               map (\<lambda>i. Clflush (alloc_result e + of_nat (i * 4096))) [0..<k] \<and>
             (runnable e \<longrightarrow> k = 256)"
    unfolding slot_addr_def by blast
  from meltdown_c_timed [of e] rs
  show "\<exists>n\<le>256. filter is_timed (trace (snd (meltdown_c e))) =
               map (\<lambda>i. TimedLoad (alloc_result e + of_nat (i * 4096))) [0..<n] \<and>
             (runnable e \<longrightarrow> n = 256)"
    unfolding slot_addr_def by blast
next
  fix i j :: nat assume "i < 256" "j < 256" "p + of_nat (i * 4096) = p + of_nat (j * 4096)"
  then show "i = j" using slot_addr_inj [of i j p] by (simp add: slot_addr_def)
next
  fix i :: nat assume "i < 256"
  then show "unat (p + of_nat (i * 4096) - p) = i * 4096"
    using unat_slot_offset [of i p] by (simp add: slot_addr_def)
  show "page_aligned (p + of_nat (i * 4096)) \<longleftrightarrow> page_aligned p"
    using page_aligned_slot [of p i] by (simp add: slot_addr_def)
qed

text \<open>
  A witness: a full run of \<^verbatim>\<open>main.c\<close> from an unaligned base, and slot 3 from an
  aligned one.
\<close>

theorem slot_addresses_distinct_and_aligned_with_base_witness:
  "filter is_flush (trace (snd (main_c (lab flat_samples)))) =
     map (\<lambda>i. Clflush (probe_base + of_nat (i * 4096))) [0..<256] \<and>
   filter is_timed (trace (snd (main_c (lab flat_samples)))) =
     map (\<lambda>i. TimedLoad (probe_base + of_nat (i * 4096))) [0..<256] \<and>
   filter is_timed (trace (snd (meltdown_c (lab flat_samples)))) =
     map (\<lambda>i. TimedLoad (probe_base + of_nat (i * 4096))) [0..<256] \<and>
   probe_base + of_nat (3 * 4096) \<noteq> probe_base + of_nat (4 * 4096) \<and>
   unat (probe_base + of_nat (3 * 4096) - probe_base) = 12288 \<and>
   page_aligned (0x7F0000000000 + of_nat (3 * 4096)) \<and>
   \<not> page_aligned (probe_base + of_nat (3 * 4096))"
proof -
  have ar: "alloc_result (lab flat_samples) = probe_base" by (simp add: lab_def lab_env_def)
  have r: "runnable (lab flat_samples)" by (rule quiet_runnable) (rule quiet_lab)
  note t = slot_addresses_distinct_and_aligned_with_base [of "lab flat_samples" probe_base]
  have three: "(3::nat) < 256" and four: "(4::nat) < 256" by simp_all
  from t [THEN conjunct1] r
  have one: "filter is_flush (trace (snd (main_c (lab flat_samples)))) =
      map (\<lambda>i. Clflush (probe_base + of_nat (i * 4096))) [0..<256]"
    unfolding ar by blast
  from t [THEN conjunct2, THEN conjunct1] r
  have two: "filter is_timed (trace (snd (main_c (lab flat_samples)))) =
      map (\<lambda>i. TimedLoad (probe_base + of_nat (i * 4096))) [0..<256]"
    unfolding ar by blast
  from t [THEN conjunct2, THEN conjunct2, THEN conjunct2, THEN conjunct1] r
  have twob: "filter is_timed (trace (snd (meltdown_c (lab flat_samples)))) =
      map (\<lambda>i. TimedLoad (probe_base + of_nat (i * 4096))) [0..<256]"
    unfolding ar by blast
  from t [THEN conjunct2, THEN conjunct2, THEN conjunct2, THEN conjunct2, THEN conjunct1,
      rule_format, OF three four]
  have d: "probe_base + of_nat (3 * 4096) \<noteq> probe_base + of_nat (4 * 4096)"
    by auto
  from t [THEN conjunct2, THEN conjunct2, THEN conjunct2, THEN conjunct2, THEN conjunct2,
      THEN conjunct1, rule_format, OF three]
  have off: "unat (probe_base + of_nat (3 * 4096) - probe_base) = 12288"
    by simp
  have "page_aligned (0x7F0000000000 :: addr)" by (simp add: page_aligned_def)
  with slot_addresses_distinct_and_aligned_with_base [of "lab flat_samples" "0x7F0000000000",
      THEN conjunct2, THEN conjunct2, THEN conjunct2, THEN conjunct2, THEN conjunct2,
      THEN conjunct2, rule_format, OF three]
  have al: "page_aligned (0x7F0000000000 + of_nat (3 * 4096))" by blast
  have "\<not> page_aligned probe_base" by (simp add: page_aligned_def probe_base_def)
  with t [THEN conjunct2, THEN conjunct2, THEN conjunct2, THEN conjunct2, THEN conjunct2,
      THEN conjunct2, rule_format, OF three]
  have un: "\<not> page_aligned (probe_base + of_nat (3 * 4096))" by blast
  from one two twob d off al un show ?thesis by blast
qed

text \<open>
  The claim as stated fails where it says page-aligned: \<^verbatim>\<open>calloc\<close> promises no page
  alignment, and from a base sixteen bytes into a page the flushed address of slot 0 is
  not page-aligned.
\<close>

theorem slot_address_unaligned_counterexample:
  "alloc_result (lab flat_samples) = probe_base \<and>
   Clflush (slot_addr probe_base 0) \<in> set (trace (snd (main_c (lab flat_samples)))) \<and>
   TimedLoad (slot_addr probe_base 0) \<in> set (trace (snd (main_c (lab flat_samples)))) \<and>
   \<not> page_aligned (slot_addr probe_base 0)"
proof -
  have ar: "alloc_result (lab flat_samples) = probe_base" by (simp add: lab_def lab_env_def)
  from quiet_trace_members(1,2) [OF quiet_lab, of 0 flat_samples] ar probe_base_unaligned
  show ?thesis by simp
qed

lemma slot_bytes_const:
  assumes "\<forall>j<1048576. m (p + of_nat j) = c" and "i < 256"
  shows "slot_bytes m p i = replicate 4096 c"
proof -
  have "m (p + of_nat j) = c" if j: "j \<in> set [i * 4096..<i * 4096 + 4096]" for j
  proof -
    from j assms(2) have "j < 1048576" by simp
    with assms(1) show ?thesis by blast
  qed
  then have "\<forall>j\<in>set [i * 4096..<i * 4096 + 4096]. m (p + of_nat j) = c"
    by blast
  then have "map (\<lambda>j. m (p + of_nat j)) [i * 4096..<i * 4096 + 4096] =
      map (\<lambda>j. c) [i * 4096..<i * 4096 + 4096]"
    by (intro map_cong) auto
  then show ?thesis by (simp add: slot_bytes_def map_replicate_const)
qed

text \<open>
  C9. The call \<^verbatim>\<open>calloc(4096 * 256, sizeof(uint8_t))\<close> in \<^verbatim>\<open>main\<close>, when it succeeds,
  yields a block of exactly 1048576 bytes: right after the call every one of them is
  zero, whatever memory held before, and no byte outside the block has changed. Slot
  \<open>i\<close> is the 4096 bytes from offset \<open>i * 4096\<close>, which start at the address the code
  computes for slot \<open>i\<close>; the 256 slots partition the block. Neither program ever writes
  to the block, so it is still zero-filled when the program ends.
\<close>

theorem probe_buffer_zero_filled:
  assumes "alloc_result e \<noteq> NULL"
  shows "calloc e (4096 * 256) 1 (boot e) = (alloc_result e, arena e) \<and>
     (4096::nat) * 256 * 1 = 1048576 \<and>
     (\<forall>j<1048576. mem (arena e) (alloc_result e + of_nat j) = 0) \<and>
     (\<forall>a. \<not> a - alloc_result e < 1048576 \<longrightarrow> mem (arena e) a = mem (boot e) a) \<and>
     (\<forall>i<256. slot_bytes (mem (arena e)) (alloc_result e) i = replicate 4096 0) \<and>
     (\<forall>i<256. slot_bytes m (alloc_result e) i =
               map (\<lambda>k. m (slot_addr (alloc_result e) i + of_nat k)) [0..<4096]) \<and>
     (\<forall>j<1048576. \<exists>!i. i < 256 \<and> i * 4096 \<le> j \<and> j < i * 4096 + (4096::nat)) \<and>
     (\<forall>j<1048576. mem (snd (main_c e)) (alloc_result e + of_nat j) = 0 \<and>
                  mem (snd (meltdown_c e)) (alloc_result e + of_nat j) = 0)"
proof (intro conjI allI impI)
  let ?m' = "mem (arena e)"
  let ?p = "alloc_result e"
  show "calloc e (4096 * 256) 1 (boot e) = (?p, arena e)"
    using calloc_fst [of e "4096 * 256" 1 "boot e"] by (simp add: arena_def prod_eq_iff)
  show "(4096::nat) * 256 * 1 = 1048576" by simp
  have zero: "?m' (?p + of_nat j) = 0" if "j < 1048576" for j
    using that assms by (simp add: arena_def calloc_def of_nat_below_size)
  show "?m' (?p + of_nat j) = 0" if "j < 1048576" for j
    using that by (rule zero)
  show "?m' a = mem (boot e) a" if "\<not> a - ?p < 1048576" for a
    using that assms by (simp add: arena_def calloc_def)
  show "slot_bytes ?m' ?p i = replicate 4096 0" if "i < 256" for i
    using zero that by (intro slot_bytes_const) blast
  show "slot_bytes m ?p i = map (\<lambda>k. m (slot_addr ?p i + of_nat k)) [0..<4096]" for i
  proof -
    have "[i * 4096..<i * 4096 + 4096] = map (\<lambda>k. k + i * 4096) [0..<4096]"
      by (simp add: map_add_upt add.commute)
    then show ?thesis
      by (simp add: slot_bytes_def slot_addr_def o_def add.commute add.left_commute)
  qed
  show "\<exists>!i. i < 256 \<and> i * 4096 \<le> j \<and> j < i * 4096 + (4096::nat)" if "j < 1048576" for j
    using that by (rule slot_of_byte)
  have "mem (snd (main_c e)) = mem (arena e)" using main_c_trace [of e] by blast
  then show "mem (snd (main_c e)) (?p + of_nat j) = 0" if "j < 1048576" for j
    using that by (simp add: zero)
  have "mem (snd (meltdown_c e)) = mem (arena e)" using meltdown_c_trace [of e] by blast
  then show "mem (snd (meltdown_c e)) (?p + of_nat j) = 0" if "j < 1048576" for j
    using that by (simp add: zero)
qed

text \<open>
  A witness on memory that holds \<^verbatim>\<open>0xAA\<close> everywhere before the call: the last byte of
  the block is \<^verbatim>\<open>0xAA\<close> before and 0 after, the byte just past the block stays
  \<^verbatim>\<open>0xAA\<close>, and \<^verbatim>\<open>some_data\<close> keeps its \<^verbatim>\<open>0xff\<close>.
\<close>

theorem probe_buffer_zero_filled_witness:
  "mem (boot (lab flat_samples)) (probe_base + 0xFFFFF) = 0xAA \<and>
   mem (arena (lab flat_samples)) (probe_base + 0xFFFFF) = 0 \<and>
   mem (arena (lab flat_samples)) (probe_base + 0x100000) = 0xAA \<and>
   mem (arena (lab flat_samples)) stack_addr = 0xFF \<and>
   slot_bytes (mem (boot (lab flat_samples))) probe_base 255 = replicate 4096 0xAA \<and>
   slot_bytes (mem (arena (lab flat_samples))) probe_base 255 = replicate 4096 0 \<and>
   mem (snd (main_c (lab flat_samples))) (probe_base + 0xFFFFF) = 0 \<and>
   mem (snd (meltdown_c (lab flat_samples))) (probe_base + 0xFFFFF) = 0"
proof -
  let ?e = "lab flat_samples"
  have ar: "alloc_result ?e = probe_base" by (simp add: lab_def lab_env_def)
  then have nn: "alloc_result ?e \<noteq> NULL" by (simp add: probe_base_def NULL_def)
  note t = probe_buffer_zero_filled [OF nn]
  have before: "mem (boot ?e) a = 0xAA" if "a \<noteq> stack_addr" for a
    using that by (simp add: boot_def init_world_def lab_def lab_env_def)
  have last: "mem (boot ?e) (probe_base + 0xFFFFF) = 0xAA"
    by (rule before) (simp add: probe_base_def stack_addr_def)
  from t have "\<forall>j<1048576. mem (arena ?e) (probe_base + of_nat j) = 0"
    by (simp only: ar) blast
  then have "(1048575::nat) < 1048576 \<longrightarrow> mem (arena ?e) (probe_base + of_nat 1048575) = 0"
    by (rule spec)
  then have one: "mem (arena ?e) (probe_base + 0xFFFFF) = 0" by simp
  from t have out: "\<forall>a. \<not> a - probe_base < 1048576 \<longrightarrow> mem (arena ?e) a = mem (boot ?e) a"
    by (simp only: ar) blast
  have "\<not> (probe_base + 0x100000) - probe_base < 1048576" by simp
  with out have "mem (arena ?e) (probe_base + 0x100000) = mem (boot ?e) (probe_base + 0x100000)"
    by blast
  also have "\<dots> = 0xAA" by (rule before) (simp add: probe_base_def stack_addr_def)
  finally have past: "mem (arena ?e) (probe_base + 0x100000) = 0xAA" .
  have "\<not> stack_addr - probe_base < 1048576"
    by (simp add: stack_addr_def probe_base_def)
  with out have "mem (arena ?e) stack_addr = mem (boot ?e) stack_addr" by blast
  then have two: "mem (arena ?e) stack_addr = 0xFF"
    by (simp add: boot_def lab_def lab_env_def)
  have "\<forall>j<1048576. mem (boot ?e) (probe_base + of_nat j) = 0xAA"
  proof (intro allI impI)
    fix j :: nat assume j: "j < 1048576"
    have "probe_base + of_nat j \<noteq> stack_addr"
    proof
      assume "probe_base + of_nat j = stack_addr"
      then have "(of_nat j :: 64 word) = stack_addr - probe_base" by (simp add: algebra_simps)
      moreover have "(of_nat j :: 64 word) < 1048576" using j by (rule of_nat_below_size)
      ultimately show False by (simp add: stack_addr_def probe_base_def)
    qed
    then show "mem (boot ?e) (probe_base + of_nat j) = 0xAA" by (rule before)
  qed
  then have sb: "slot_bytes (mem (boot ?e)) probe_base 255 = replicate 4096 0xAA"
    by (rule slot_bytes_const) simp
  from t have "\<forall>i<256. slot_bytes (mem (arena ?e)) probe_base i = replicate 4096 0"
    by (simp only: ar) blast
  then have "(255::nat) < 256 \<longrightarrow> slot_bytes (mem (arena ?e)) probe_base 255 = replicate 4096 0"
    by (rule spec)
  then have three: "slot_bytes (mem (arena ?e)) probe_base 255 = replicate 4096 0" by simp
  from t have "\<forall>j<1048576. mem (snd (main_c ?e)) (probe_base + of_nat j) = 0 \<and>
                  mem (snd (meltdown_c ?e)) (probe_base + of_nat j) = 0"
    by (simp only: ar) blast
  then have "(1048575::nat) < 1048576 \<longrightarrow>
      mem (snd (main_c ?e)) (probe_base + of_nat 1048575) = 0 \<and>
      mem (snd (meltdown_c ?e)) (probe_base + of_nat 1048575) = 0"
    by (rule spec)
  then have four: "mem (snd (main_c ?e)) (probe_base + 0xFFFFF) = 0 \<and>
      mem (snd (meltdown_c ?e)) (probe_base + 0xFFFFF) = 0"
    by simp
  from last one past two sb three four show ?thesis by blast
qed

section \<open>Flushes, transient accesses and timed loads in order\<close>

lemma measuring_no_flush: "measuring p ev \<Longrightarrow> \<not> is_flush ev"
  by (simp add: measuring_def)

lemma filter_flush_iter_B: "filter is_flush (concat (map (iter_B p sa) js)) = []"
  by (induction js) (simp_all add: iter_B_def)

lemma drop_flushes:
  "drop 256 (map (\<lambda>j. Clflush (slot_addr p j)) [0..<256] @ rest) = rest"
  by simp

lemma first_two_iterations:
  "take 10 (concat (map (iter_B p sa) [0..<256])) = iter_B p sa 0 @ iter_B p sa 1"
proof -
  have "[0..<256] = 0 # 1 # [2..<256]" by (simp add: upt_conv_Cons)
  then show ?thesis by (simp add: iter_B_def)
qed

lemma timed_after_flushes:
  assumes "tr = map (\<lambda>j. Clflush (f j)) js @ rest"
  shows "filter is_timed rest = filter is_timed tr"
  using assms by (simp add: flushes_not_timed)

text \<open>
  C2, as amended. The flush of the 256 slots is executed once per run, before the
  measuring loop: in every run of either program the trace consists of the flushes, in
  slot order, followed by events that are not flushes, and anything follows only after
  all 256 flushes. In a runnable environment all 256 flushes are followed by the 256
  timed loads of the measuring loop, with no flush among or between them. In a quiet run
  what follows the flushes is exactly 256 iterations, each a transient access and then
  the timed load of that iteration's slot.
\<close>

theorem flush_once_before_measuring_loop:
  "(\<exists>k rest. k \<le> 256 \<and>
      trace (snd (main_c e)) = map (\<lambda>j. Clflush (slot_addr (alloc_result e) j)) [0..<k] @ rest \<and>
      (\<forall>ev\<in>set rest. \<not> is_flush ev) \<and> (rest \<noteq> [] \<longrightarrow> k = 256) \<and>
      (runnable e \<longrightarrow> k = 256 \<and>
         filter is_timed rest = map (\<lambda>j. TimedLoad (slot_addr (alloc_result e) j)) [0..<256])) \<and>
   (\<exists>k rest. k \<le> 256 \<and>
      trace (snd (meltdown_c e)) = map (\<lambda>j. Clflush (slot_addr (alloc_result e) j)) [0..<k] @ rest \<and>
      (\<forall>ev\<in>set rest. \<not> is_flush ev) \<and> (rest \<noteq> [] \<longrightarrow> k = 256) \<and>
      (runnable e \<longrightarrow> k = 256 \<and>
         filter is_timed rest = map (\<lambda>j. TimedLoad (slot_addr (alloc_result e) j)) [0..<256])) \<and>
   (quiet e \<longrightarrow>
      trace (snd (main_c e)) =
        map (\<lambda>j. Clflush (slot_addr (alloc_result e) j)) [0..<256] @
        concat (map (iter_A (alloc_result e) (secret_addr e)) [0..<256]) \<and>
      trace (snd (meltdown_c e)) =
        map (\<lambda>j. Clflush (slot_addr (alloc_result e) j)) [0..<256] @
        concat (map (iter_B (alloc_result e) (secret_addr e)) [0..<256]))"
proof (intro conjI impI)
  let ?p = "alloc_result e"
  let ?T = "map (\<lambda>j. TimedLoad (slot_addr ?p j)) [0..<256]"
  from main_c_trace [of e] obtain k rest where k: "k \<le> 256"
    and t: "trace (snd (main_c e)) = map (\<lambda>j. Clflush (slot_addr ?p j)) [0..<k] @ rest"
    and m: "\<forall>ev\<in>set rest. measuring ?p ev" and r: "rest \<noteq> [] \<longrightarrow> k = 256"
    and x: "fst (main_c e) = Exit 0 \<longrightarrow> k = 256"
    by blast
  from m have nf: "\<forall>ev\<in>set rest. \<not> is_flush ev" by (auto dest: measuring_no_flush)
  have run: "k = 256 \<and> filter is_timed rest = ?T" if "runnable e"
  proof -
    from that have ex: "fst (main_c e) = Exit 0" by (rule main_c_runnable)
    with main_c_timed [of e] have "filter is_timed (trace (snd (main_c e))) = ?T" by auto
    moreover from t have "filter is_timed rest = filter is_timed (trace (snd (main_c e)))"
      by (rule timed_after_flushes)
    ultimately show ?thesis using x ex by simp
  qed
  from k t nf r run have "k \<le> 256 \<and>
      trace (snd (main_c e)) = map (\<lambda>j. Clflush (slot_addr ?p j)) [0..<k] @ rest \<and>
      (\<forall>ev\<in>set rest. \<not> is_flush ev) \<and> (rest \<noteq> [] \<longrightarrow> k = 256) \<and>
      (runnable e \<longrightarrow> k = 256 \<and> filter is_timed rest = ?T)"
    by blast
  then show "\<exists>k rest. k \<le> 256 \<and>
      trace (snd (main_c e)) = map (\<lambda>j. Clflush (slot_addr ?p j)) [0..<k] @ rest \<and>
      (\<forall>ev\<in>set rest. \<not> is_flush ev) \<and> (rest \<noteq> [] \<longrightarrow> k = 256) \<and>
      (runnable e \<longrightarrow> k = 256 \<and> filter is_timed rest = ?T)"
    by blast
next
  let ?p = "alloc_result e"
  let ?T = "map (\<lambda>j. TimedLoad (slot_addr ?p j)) [0..<256]"
  from meltdown_c_trace [of e] obtain k rest where k: "k \<le> 256"
    and t: "trace (snd (meltdown_c e)) = map (\<lambda>j. Clflush (slot_addr ?p j)) [0..<k] @ rest"
    and m: "\<forall>ev\<in>set rest. measuring ?p ev" and r: "rest \<noteq> [] \<longrightarrow> k = 256"
    and x: "fst (meltdown_c e) = Exit 0 \<longrightarrow> k = 256"
    by blast
  from m have nf: "\<forall>ev\<in>set rest. \<not> is_flush ev" by (auto dest: measuring_no_flush)
  have run: "k = 256 \<and> filter is_timed rest = ?T" if "runnable e"
  proof -
    from that have ex: "fst (meltdown_c e) = Exit 0" by (rule meltdown_c_runnable)
    with meltdown_c_timed [of e] have "filter is_timed (trace (snd (meltdown_c e))) = ?T"
      by auto
    moreover from t have "filter is_timed rest = filter is_timed (trace (snd (meltdown_c e)))"
      by (rule timed_after_flushes)
    ultimately show ?thesis using x ex by simp
  qed
  from k t nf r run have "k \<le> 256 \<and>
      trace (snd (meltdown_c e)) = map (\<lambda>j. Clflush (slot_addr ?p j)) [0..<k] @ rest \<and>
      (\<forall>ev\<in>set rest. \<not> is_flush ev) \<and> (rest \<noteq> [] \<longrightarrow> k = 256) \<and>
      (runnable e \<longrightarrow> k = 256 \<and> filter is_timed rest = ?T)"
    by blast
  then show "\<exists>k rest. k \<le> 256 \<and>
      trace (snd (meltdown_c e)) = map (\<lambda>j. Clflush (slot_addr ?p j)) [0..<k] @ rest \<and>
      (\<forall>ev\<in>set rest. \<not> is_flush ev) \<and> (rest \<noteq> [] \<longrightarrow> k = 256) \<and>
      (runnable e \<longrightarrow> k = 256 \<and> filter is_timed rest = ?T)"
    by blast
next
  assume "quiet e"
  then show "trace (snd (main_c e)) =
        map (\<lambda>j. Clflush (slot_addr (alloc_result e) j)) [0..<256] @
        concat (map (iter_A (alloc_result e) (secret_addr e)) [0..<256])"
    by (rule main_c_quiet(2))
next
  assume "quiet e"
  then show "trace (snd (meltdown_c e)) =
        map (\<lambda>j. Clflush (slot_addr (alloc_result e) j)) [0..<256] @
        concat (map (iter_B (alloc_result e) (secret_addr e)) [0..<256])"
    by (rule meltdown_c_quiet(2))
qed

text \<open>
  A witness: the run of \<^verbatim>\<open>meltdown.c\<close> in the laboratory environment. Its first 256
  events are the flushes, the next five are the first iteration of the measuring loop,
  and 256 iterations of five events follow the flushes.
\<close>

theorem flush_once_before_measuring_loop_witness:
  "take 256 (trace (snd (meltdown_c (lab flat_samples)))) =
     map (\<lambda>j. Clflush (slot_addr probe_base j)) [0..<256] \<and>
   take 5 (drop 256 (trace (snd (meltdown_c (lab flat_samples))))) =
     [TxBegin, ByteLoad stack_addr, IndexedLoad (slot_addr probe_base 255), TxEnd,
      TimedLoad (slot_addr probe_base 0)] \<and>
   length (trace (snd (meltdown_c (lab flat_samples)))) = 1536"
proof -
  let ?e = "lab flat_samples"
  have e: "alloc_result ?e = probe_base" "secret_addr ?e = stack_addr"
    by (simp_all add: lab_def lab_env_def)
  from flush_once_before_measuring_loop [of ?e, THEN conjunct2, THEN conjunct2, THEN mp,
    OF quiet_lab, THEN conjunct2]
  have t: "trace (snd (meltdown_c ?e)) =
        map (\<lambda>j. Clflush (slot_addr probe_base j)) [0..<256] @
        concat (map (iter_B probe_base stack_addr) [0..<256])"
    by (simp only: e)
  have five: "take 5 (take 10 (concat (map (iter_B probe_base stack_addr) [0..<256]))) =
      iter_B probe_base stack_addr 0"
    by (simp only: first_two_iterations) (simp add: iter_B_def)
  have len: "length (concat (map (iter_B probe_base stack_addr) [0..<256])) = 1280"
    by (simp add: length_concat iter_B_def o_def sum_list_triv)
  from five have "take 5 (concat (map (iter_B probe_base stack_addr) [0..<256])) =
      iter_B probe_base stack_addr 0"
    by simp
  with len show ?thesis by (simp add: t iter_B_def)
qed

text \<open>
  The claim as stated fails from the second transient access on: in the run of
  \<^verbatim>\<open>meltdown.c\<close> no flush is issued after the first 256 events, and between the timed
  load of slot 0 and the indexed load of the next iteration there are only the
  \<^verbatim>\<open>xbegin\<close> and the read of the secret.
\<close>

theorem flush_before_every_access_counterexample:
  "take 10 (drop 256 (trace (snd (meltdown_c (lab flat_samples))))) =
     [TxBegin, ByteLoad stack_addr, IndexedLoad (slot_addr probe_base 255), TxEnd,
      TimedLoad (slot_addr probe_base 0),
      TxBegin, ByteLoad stack_addr, IndexedLoad (slot_addr probe_base 255), TxEnd,
      TimedLoad (slot_addr probe_base 1)] \<and>
   filter is_flush (drop 256 (trace (snd (meltdown_c (lab flat_samples))))) = []"
proof -
  let ?e = "lab flat_samples"
  have e: "alloc_result ?e = probe_base" "secret_addr ?e = stack_addr"
    by (simp_all add: lab_def lab_env_def)
  have "drop 256 (trace (snd (meltdown_c ?e))) =
      concat (map (iter_B probe_base stack_addr) [0..<256])"
    by (simp only: meltdown_c_quiet(2) [OF quiet_lab] e drop_flushes)
  then show ?thesis
    by (simp only: first_two_iterations filter_flush_iter_B) (simp add: iter_B_def)
qed

section \<open>Which bytes of the probe array are touched\<close>

lemma slot_addr_not_succ: "i < 256 \<Longrightarrow> slot_addr p i \<noteq> p + 1"
proof
  assume i: "i < 256" and eq: "slot_addr p i = p + 1"
  from i have A: "unat (slot_addr p i - p) = i * 4096" by (rule unat_slot_offset)
  have B: "unat (p + 1 - p) = (1::nat)" by simp
  have "unat (slot_addr p i - p) = unat (p + 1 - p)" by (simp only: eq)
  with A [symmetric] have "i * 4096 = unat (p + 1 - p)" by (rule trans)
  then have "i * 4096 = 1" using B by (rule trans)
  then show False by simp
qed

lemma qword_bytes:
  assumes "x \<in> set (map (\<lambda>j. a + of_nat j) [0..<8])"
  shows "\<exists>k<8. x = (a::addr) + of_nat k"
proof -
  from assms have "x \<in> (\<lambda>j. a + of_nat j) ` set [0..<8]" by (simp only: set_map)
  then obtain j :: nat where j: "j \<in> set [0..<8]" and x: "x = a + of_nat j" by (rule imageE)
  from j have "0 \<le> j \<and> j < 8" by (simp only: set_upt atLeastLessThan_iff)
  then have "j < 8" by (rule conjunct2)
  with x show ?thesis by blast
qed

lemma bytes_read_within:
  assumes "probe_operand ev = Some a" and "x \<in> set (bytes_read ev)"
  shows "\<exists>k<8. x = a + of_nat k"
proof (cases ev)
  case (IndexedLoad b)
  with assms(1) have "b = a" by simp
  with IndexedLoad assms(2) have "x \<in> set (map (\<lambda>j. a + of_nat j) [0..<8])"
    by (simp only: bytes_read.simps)
  then show ?thesis by (rule qword_bytes)
next
  case (TimedLoad b)
  with assms(1) have "b = a" by simp
  with TimedLoad assms(2) have "x \<in> set (map (\<lambda>j. a + of_nat j) [0..<8])"
    by (simp only: bytes_read.simps)
  then show ?thesis by (rule qword_bytes)
next
  case (Clflush b)
  with assms(2) show ?thesis by (simp only: bytes_read.simps list.set empty_iff)
next
  case (ByteLoad b)
  with assms(1) show ?thesis by simp
next
  case TxBegin
  with assms(1) show ?thesis by simp
next
  case TxAbort
  with assms(1) show ?thesis by simp
next
  case TxEnd
  with assms(1) show ?thesis by simp
qed

lemma runnable_trace_members:
  assumes "runnable e" and "i < 256"
  shows "Clflush (slot_addr (alloc_result e) i) \<in> set (trace (snd (main_c e)))"
    and "TimedLoad (slot_addr (alloc_result e) i) \<in> set (trace (snd (main_c e)))"
    and "Clflush (slot_addr (alloc_result e) i) \<in> set (trace (snd (meltdown_c e)))"
    and "TimedLoad (slot_addr (alloc_result e) i) \<in> set (trace (snd (meltdown_c e)))"
proof -
  let ?p = "alloc_result e"
  have rm: "fst (main_c e) = Exit 0" using assms(1) by (rule main_c_runnable)
  have rs: "fst (meltdown_c e) = Exit 0" using assms(1) by (rule meltdown_c_runnable)
  have mem: "g i \<in> set xs" if "filter P xs = map g [0..<256]" for g :: "nat \<Rightarrow> event" and P xs
  proof -
    from assms(2) have "g i \<in> set (map g [0..<256])" by simp
    then have "g i \<in> set (filter P xs)" by (simp only: that)
    then show ?thesis by simp
  qed
  from main_c_flushes [of e] rm
  have "filter is_flush (trace (snd (main_c e))) = map (\<lambda>j. Clflush (slot_addr ?p j)) [0..<256]"
    by auto
  then show "Clflush (slot_addr ?p i) \<in> set (trace (snd (main_c e)))" by (rule mem)
  from main_c_timed [of e] rm
  have "filter is_timed (trace (snd (main_c e))) = map (\<lambda>j. TimedLoad (slot_addr ?p j)) [0..<256]"
    by auto
  then show "TimedLoad (slot_addr ?p i) \<in> set (trace (snd (main_c e)))" by (rule mem)
  from meltdown_c_flushes [of e] rs
  have "filter is_flush (trace (snd (meltdown_c e))) =
      map (\<lambda>j. Clflush (slot_addr ?p j)) [0..<256]"
    by auto
  then show "Clflush (slot_addr ?p i) \<in> set (trace (snd (meltdown_c e)))" by (rule mem)
  from meltdown_c_timed [of e] rs
  have "filter is_timed (trace (snd (meltdown_c e))) =
      map (\<lambda>j. TimedLoad (slot_addr ?p j)) [0..<256]"
    by auto
  then show "TimedLoad (slot_addr ?p i) \<in> set (trace (snd (meltdown_c e)))" by (rule mem)
qed

text \<open>
  C7, as amended. Every flush, indexed load and timed load of either program is issued
  at the first byte of one of the 256 slots, \<^verbatim>\<open>probe_array + i * 4096\<close>. The two loads
  are \<^verbatim>\<open>QWORD PTR\<close> loads, so each reads the eight bytes that start there, the first
  eight bytes of that slot, and no other byte of the array. In a runnable environment
  every one of the 256 slots is flushed and timed in this way.
\<close>

theorem probe_accesses_start_at_slot_starts:
  "(\<forall>ev\<in>set (trace (snd (main_c e))) \<union> set (trace (snd (meltdown_c e))).
      \<forall>a. probe_operand ev = Some a \<longrightarrow>
        (\<exists>i<256. a = slot_addr (alloc_result e) i \<and>
           (\<forall>x\<in>set (bytes_read ev). \<exists>k<8. x = slot_addr (alloc_result e) i + of_nat k))) \<and>
   (runnable e \<longrightarrow>
      (\<forall>i<256. Clflush (slot_addr (alloc_result e) i) \<in> set (trace (snd (main_c e))) \<and>
               TimedLoad (slot_addr (alloc_result e) i) \<in> set (trace (snd (main_c e))) \<and>
               Clflush (slot_addr (alloc_result e) i) \<in> set (trace (snd (meltdown_c e))) \<and>
               TimedLoad (slot_addr (alloc_result e) i) \<in> set (trace (snd (meltdown_c e)))))"
proof (intro conjI ballI allI impI)
  fix ev a
  assume ev: "ev \<in> set (trace (snd (main_c e))) \<union> set (trace (snd (meltdown_c e)))"
    and a: "probe_operand ev = Some a"
  from ev have "at_slot_start (alloc_result e) ev" by (auto intro: trace_operands)
  with a obtain i where i: "i < 256" "a = slot_addr (alloc_result e) i"
    by (auto simp add: at_slot_start_def)
  have "\<forall>x\<in>set (bytes_read ev). \<exists>k<8. x = a + of_nat k"
    using a by (blast intro: bytes_read_within)
  with i show "\<exists>i<256. a = slot_addr (alloc_result e) i \<and>
          (\<forall>x\<in>set (bytes_read ev). \<exists>k<8. x = slot_addr (alloc_result e) i + of_nat k)"
    by blast
next
  fix i :: nat assume r: "runnable e" and i: "i < 256"
  show "Clflush (slot_addr (alloc_result e) i) \<in> set (trace (snd (main_c e)))"
    using r i by (rule runnable_trace_members)
  show "TimedLoad (slot_addr (alloc_result e) i) \<in> set (trace (snd (main_c e)))"
    using r i by (rule runnable_trace_members)
  show "Clflush (slot_addr (alloc_result e) i) \<in> set (trace (snd (meltdown_c e)))"
    using r i by (rule runnable_trace_members)
  show "TimedLoad (slot_addr (alloc_result e) i) \<in> set (trace (snd (meltdown_c e)))"
    using r i by (rule runnable_trace_members)
qed

text \<open>
  A witness: the timed load of slot 7 in the run of \<^verbatim>\<open>meltdown.c\<close>, and the byte at
  offset 5 of that slot, which it reads.
\<close>

theorem probe_accesses_start_at_slot_starts_witness:
  "TimedLoad (slot_addr probe_base 7) \<in> set (trace (snd (meltdown_c (lab flat_samples)))) \<and>
   Clflush (slot_addr probe_base 7) \<in> set (trace (snd (main_c (lab flat_samples)))) \<and>
   slot_addr probe_base 7 + 5 \<in> set (bytes_read (TimedLoad (slot_addr probe_base 7))) \<and>
   (\<exists>i k. i < 256 \<and> k < 8 \<and> slot_addr probe_base 7 = slot_addr probe_base i \<and>
      slot_addr probe_base 7 + 5 = slot_addr probe_base i + of_nat k)"
proof -
  let ?e = "lab flat_samples"
  let ?a = "slot_addr probe_base 7"
  have e: "alloc_result ?e = probe_base" by (simp add: lab_def lab_env_def)
  have r: "runnable ?e" by (rule quiet_runnable) (rule quiet_lab)
  have seven: "(7::nat) < 256" by simp
  note t = probe_accesses_start_at_slot_starts [of ?e]
  from t [THEN conjunct2, THEN mp, OF r, rule_format, OF seven]
  have m: "TimedLoad ?a \<in> set (trace (snd (meltdown_c ?e)))"
    and f: "Clflush ?a \<in> set (trace (snd (main_c ?e)))"
    unfolding e by blast+
  from m have u: "TimedLoad ?a \<in>
      set (trace (snd (main_c ?e))) \<union> set (trace (snd (meltdown_c ?e)))"
    by (rule UnI2)
  have "(5::nat) \<in> set [0..<8]" by (simp only: set_upt atLeastLessThan_iff) simp
  then have "?a + of_nat 5 \<in> (\<lambda>j. ?a + of_nat j) ` set [0..<8]"
    by (rule imageI)
  then have "?a + of_nat 5 \<in> set (bytes_read (TimedLoad ?a))"
    by (simp only: bytes_read.simps set_map)
  moreover have "(of_nat 5 :: addr) = 5" by simp
  ultimately have b: "?a + 5 \<in> set (bytes_read (TimedLoad ?a))" by (simp only:)
  have po: "probe_operand (TimedLoad ?a) = Some ?a" by simp
  from t [THEN conjunct1, rule_format, OF u po]
  obtain i where i: "i < 256" "?a = slot_addr probe_base i"
    and all: "\<forall>x\<in>set (bytes_read (TimedLoad ?a)). \<exists>k<8. x = slot_addr probe_base i + of_nat k"
    unfolding e by blast
  from all b obtain k :: nat where "k < 8" "?a + 5 = slot_addr probe_base i + of_nat k"
    by blast
  with i have "\<exists>i k. i < 256 \<and> k < 8 \<and> ?a = slot_addr probe_base i \<and>
      ?a + 5 = slot_addr probe_base i + of_nat k"
    by blast
  with m f b show ?thesis by blast
qed

text \<open>
  The claim as stated fails on the width of the loads: the timed load of slot 0 reads
  the byte at offset 1 of the array, which lies in the array and is the first byte of
  no slot.
\<close>

theorem first_byte_only_counterexample:
  "TimedLoad (slot_addr probe_base 0) \<in> set (trace (snd (meltdown_c (lab flat_samples)))) \<and>
   probe_base + 1 \<in> set (bytes_read (TimedLoad (slot_addr probe_base 0))) \<and>
   probe_base + 1 - probe_base < 0x100000 \<and>
   probe_base + 1 \<notin> slot_addr probe_base ` {..<256}"
proof -
  let ?e = "lab flat_samples"
  have e: "alloc_result ?e = probe_base" by (simp add: lab_def lab_env_def)
  have s0: "slot_addr probe_base 0 = probe_base" by (simp add: slot_addr_def)
  have zero: "(0::nat) < 256" by simp
  have one: "TimedLoad (slot_addr probe_base 0) \<in> set (trace (snd (meltdown_c ?e)))"
    using quiet_trace_members(4) [OF quiet_lab zero, of flat_samples] by (simp only: e)
  have "(1::nat) \<in> set [0..<8]" by (simp only: set_upt atLeastLessThan_iff) simp
  then have "probe_base + of_nat 1 \<in> (\<lambda>j. probe_base + of_nat j) ` set [0..<8]"
    by (rule imageI)
  then have "probe_base + of_nat 1 \<in> set (bytes_read (TimedLoad probe_base))"
    by (simp only: bytes_read.simps set_map)
  moreover have "(of_nat 1 :: addr) = 1" by simp
  ultimately have two: "probe_base + 1 \<in> set (bytes_read (TimedLoad (slot_addr probe_base 0)))"
    by (simp only: s0)
  have "probe_base + 1 - probe_base = (1 :: addr)" by simp
  then have three: "probe_base + 1 - probe_base < 0x100000" by (simp only:) simp
  have four: "probe_base + 1 \<notin> slot_addr probe_base ` {..<256}"
  proof
    assume "probe_base + 1 \<in> slot_addr probe_base ` {..<256}"
    then obtain i where "i \<in> {..<256}" and eq: "probe_base + 1 = slot_addr probe_base i"
      by (rule imageE)
    then have "i < 256" by (simp only: lessThan_iff)
    then have ne: "slot_addr probe_base i \<noteq> probe_base + 1" by (rule slot_addr_not_succ)
    from ne eq [symmetric] show False by (rule notE)
  qed
  from one two three four show ?thesis by blast
qed

section \<open>Allocation failure\<close>

text \<open>
  C3 holds for \<^verbatim>\<open>meltdown.c\<close>, which checks the pointer, and fails for \<^verbatim>\<open>main.c\<close>,
  which carries the comment \<^verbatim>\<open>TODO: Check rbx != NULL\<close> in place of the check: when
  \<^verbatim>\<open>calloc\<close> returns \<^verbatim>\<open>NULL\<close>, \<^verbatim>\<open>main.c\<close> reports nothing and goes on to flush
  address 0, where (page zero not being mapped) the process takes a fault.
\<close>

theorem main_c_ignores_failed_allocation:
  "alloc_result oom = NULL \<and>
   main_c oom = (Segv, (arena oom)\<lparr>trace := [Clflush NULL]\<rparr>) \<and>
   trace (arena oom) = [] \<and> err (arena oom) = [] \<and> out (arena oom) = [] \<and>
   meltdown_c oom =
     (Exit 1, (arena oom)\<lparr>err := [''Failed to allocate memory for side channel!'']\<rparr>)"
proof -
  have a: "alloc_result oom = NULL" by (simp add: oom_def)
  have f: "faults oom (slot_addr NULL 0)" by (simp add: oom_def slot_addr_def NULL_def)
  have s: "slot_addr NULL 0 = NULL" by (simp add: slot_addr_def)
  have "flush_loop oom NULL 0 (arena oom) = Inl (Segv, (arena oom)\<lparr>trace := [Clflush NULL]\<rparr>)"
    using f by (simp add: flush_loop.simps [of oom NULL 0 "arena oom"] clflush_def Let_def
        arena_fields s)
  then have "main_c oom = (Segv, (arena oom)\<lparr>trace := [Clflush NULL]\<rparr>)"
    by (simp add: main_c_unfold a)
  moreover have "meltdown_c oom =
     (Exit 1, (arena oom)\<lparr>err := [''Failed to allocate memory for side channel!'']\<rparr>)"
    by (simp add: meltdown_c_unfold a)
  ultimately show ?thesis by (simp add: a arena_fields)
qed

end
